theory Spec2Isabelle
  imports Complex_Main "HOL-Library.Char_ord" "HOL-Library.List_Lexorder"
begin

section \<open>Python string operations used by the scripts\<close>

text \<open>
  Python strings are modelled as HOL strings (lists of characters with codes 0..255).
  \<open>str.isspace\<close> on that range holds exactly for the codes 9-13, 28-32, 133 and 160;
  \<open>bytes.strip\<close> removes the six ASCII whitespace bytes only.
\<close>

definition isspace :: "char \<Rightarrow> bool" where
  "isspace c = (of_char c \<in> {9, 10, 11, 12, 13, 28, 29, 30, 31, 32, 133, 160 :: nat})"

definition bytes_isspace :: "char \<Rightarrow> bool" where
  "bytes_isspace c = (of_char c \<in> {9, 10, 11, 12, 13, 32 :: nat})"

definition strip_with :: "(char \<Rightarrow> bool) \<Rightarrow> string \<Rightarrow> string" where
  "strip_with p s = rev (dropWhile p (rev (dropWhile p s)))"

definition strip :: "string \<Rightarrow> string" where
  "strip s = strip_with isspace s"

definition bytes_strip :: "string \<Rightarrow> string" where
  "bytes_strip s = strip_with bytes_isspace s"

definition startswith :: "string \<Rightarrow> string \<Rightarrow> bool" where
  "startswith s pre = (take (length pre) s = pre)"

definition endswith :: "string \<Rightarrow> string \<Rightarrow> bool" where
  "endswith s suf = (length suf \<le> length s \<and> drop (length s - length suf) s = suf)"

section \<open>The sitemap crawler (sitemap\_extractor.py)\<close>

subsection \<open>XML element trees\<close>

text \<open>
  An \<open>xml.etree.ElementTree\<close> element: its tag (a namespaced tag is written
  \<open>{uri}local\<close>), its text (\<open>None\<close> when the element has no text node) and its children.
\<close>

datatype element = Element (tag: string) (text_of: "string option") (children: "element list")

text \<open>\<open>Element.iter()\<close>: the element and all its descendants in document order.\<close>

fun iter :: "element \<Rightarrow> element list" where
  "iter (Element t x cs) = Element t x cs # concat (map iter cs)"

text \<open>
  \<open>root.findall('.//name')\<close>: every element below the root (the root itself excluded)
  whose tag is the given one, in document order.
\<close>

definition findall_descendants :: "string \<Rightarrow> element \<Rightarrow> element list" where
  "findall_descendants tg root_elem = filter (\<lambda>e. tag e = tg) (concat (map iter (children root_elem)))"

definition sitemap_ns :: string where
  "sitemap_ns = ''http://www.sitemaps.org/schemas/sitemap/0.9''"

definition ns_loc_tag :: string where
  "ns_loc_tag = ''{'' @ sitemap_ns @ ''}loc''"

definition bare_loc_tag :: string where
  "bare_loc_tag = ''loc''"

text \<open>Lines 32-34: the namespaced search first, the bare search when it found nothing.\<close>

definition loc_elements :: "element \<Rightarrow> element list" where
  "loc_elements root_elem =
     (let locs = findall_descendants ns_loc_tag root_elem
      in if locs = [] then findall_descendants bare_loc_tag root_elem else locs)"

subsection \<open>The environment: network and XML parser\<close>

datatype fetch_result = Request_Exception | Uncaught_Exception | Response (content: string)

datatype parse_exn = Parse_Error | Other_Exception

text \<open>
  \<open>requests_get url\<close> is the outcome of \<open>requests.get(url, timeout=10)\<close> followed by
  \<open>raise_for_status()\<close>: a \<open>RequestException\<close> (connection error, timeout, non-success
  status), an exception of another class, which the handler of line 21 does not catch (the
  library raises \<open>LocationParseError\<close> for a host such as \<open>a..b\<close>), or the response body.
  \<open>fromstring\<close> is \<open>ET.fromstring\<close>: it raises or returns the root element.
\<close>

record env =
  requests_get :: "string \<Rightarrow> fetch_result"
  fromstring :: "string \<Rightarrow> parse_exn + element"

subsection \<open>The resolver state and its trace of effects\<close>

datatype event =
    Print_Skipping string
  | Print_Processing string
  | Processed_Add string
  | Requests_Get string
  | Print_Error_Fetching string
  | Print_Empty string
  | Print_Error_Parsing string
  | Print_Unexpected string
  | All_Urls_Add string

record state =
  all_urls :: "string set"
  processed_sitemaps :: "string set"
  trace :: "event list"

definition emit :: "event \<Rightarrow> state \<Rightarrow> state" where
  "emit e st = st\<lparr>trace := trace st @ [e]\<rparr>"

definition processed_add :: "string \<Rightarrow> state \<Rightarrow> state" where
  "processed_add u st =
     emit (Processed_Add u) (st\<lparr>processed_sitemaps := insert u (processed_sitemaps st)\<rparr>)"

definition all_urls_add :: "string \<Rightarrow> state \<Rightarrow> state" where
  "all_urls_add u st = emit (All_Urls_Add u) (st\<lparr>all_urls := insert u (all_urls st)\<rparr>)"

text \<open>
  How a call ends: it returns, or an exception leaves it. Both sets are mutated in place, so
  either way the caller goes on from the state reached.
\<close>

datatype outcome = Returns (final: state) | Raises (final: state)

subsection \<open>get\_sitemap\_urls\<close>

text \<open>
  Lines 36-42, the loop over the location elements. \<open>rec\<close> is the recursive call of
  line 40; when it does not return, neither does the loop, and an exception that leaves it
  leaves the loop.
\<close>

fun for_loc_elements ::
  "(string \<Rightarrow> state \<Rightarrow> outcome option) \<Rightarrow> element list \<Rightarrow> state \<Rightarrow> outcome option" where
  "for_loc_elements rec [] st = Some (Returns st)"
| "for_loc_elements rec (loc_element # rest) st =
     (case text_of loc_element of
        None \<Rightarrow> for_loc_elements rec rest st
      | Some t \<Rightarrow>
          if t = [] then for_loc_elements rec rest st
          else let url = strip t in
            if endswith url ''.xml''
            then (case rec url st of
                    None \<Rightarrow> None
                  | Some (Raises st') \<Rightarrow> Some (Raises st')
                  | Some (Returns st') \<Rightarrow> for_loc_elements rec rest st')
            else for_loc_elements rec rest (all_urls_add url st))"

text \<open>
  Lines 25-46, the second \<open>try\<close> block with its two handlers: both print and fall off
  the end of the function. The handler of line 45 also catches what a recursive call
  raises, which ends the loop.
\<close>

definition parse_and_walk ::
  "env \<Rightarrow> (string \<Rightarrow> state \<Rightarrow> outcome option) \<Rightarrow> string \<Rightarrow> string \<Rightarrow> state \<Rightarrow> state option" where
  "parse_and_walk E rec sitemap_url body st =
     (let content = bytes_strip body in
      if content = [] then Some (emit (Print_Empty sitemap_url) st)
      else case fromstring E content of
             Inl Parse_Error \<Rightarrow> Some (emit (Print_Error_Parsing sitemap_url) st)
           | Inl Other_Exception \<Rightarrow> Some (emit (Print_Unexpected sitemap_url) st)
           | Inr root_elem \<Rightarrow>
               (case for_loc_elements rec (loc_elements root_elem) st of
                  None \<Rightarrow> None
                | Some (Raises st') \<Rightarrow> Some (emit (Print_Unexpected sitemap_url) st')
                | Some (Returns st') \<Rightarrow> Some st'))"

text \<open>
  The recursive function. The first argument bounds the depth of the recursion; \<open>None\<close>
  means that the call does not end within that depth. Python's own recursion limit is
  not modelled.
\<close>

fun get_sitemap_urls :: "nat \<Rightarrow> env \<Rightarrow> string \<Rightarrow> state \<Rightarrow> outcome option" where
  "get_sitemap_urls 0 E sitemap_url st = None"
| "get_sitemap_urls (Suc n) E sitemap_url st =
     (if sitemap_url \<in> processed_sitemaps st
      then Some (Returns (emit (Print_Skipping sitemap_url) st))
      else
        let st1 = processed_add sitemap_url (emit (Print_Processing sitemap_url) st);
            st2 = emit (Requests_Get sitemap_url) st1
        in case requests_get E sitemap_url of
             Request_Exception \<Rightarrow> Some (Returns (emit (Print_Error_Fetching sitemap_url) st2))
           | Uncaught_Exception \<Rightarrow> Some (Raises st2)
           | Response body \<Rightarrow>
               (case parse_and_walk E (get_sitemap_urls n E) sitemap_url body st2 of
                  None \<Rightarrow> None
                | Some st' \<Rightarrow> Some (Returns st')))"

definition initial_state :: state where
  "initial_state = \<lparr>all_urls = {}, processed_sitemaps = {}, trace = []\<rparr>"

definition fetched :: "event list \<Rightarrow> string list" where
  "fetched evs = concat (map (\<lambda>e. case e of Requests_Get u \<Rightarrow> [u] | _ \<Rightarrow> []) evs)"

subsection \<open>The main program: sorting, batching and the link lines\<close>

text \<open>
  \<open>s.split(sep)\<close> for a non-empty separator: a scan from the left that cuts at every
  occurrence and resumes after it. The only call site passes the literal \<open>//\<close>; Python's
  \<open>ValueError\<close> on an empty separator is not modelled (the scan then never cuts).
\<close>

fun split_aux :: "string \<Rightarrow> string \<Rightarrow> string \<Rightarrow> string list" where
  "split_aux sep cur [] = [cur]"
| "split_aux sep cur (c # cs) =
     (if sep \<noteq> [] \<and> startswith (c # cs) sep
      then cur # split_aux sep [] (drop (length sep) (c # cs))
      else split_aux sep (cur @ [c]) cs)"

definition split :: "string \<Rightarrow> string \<Rightarrow> string list" where
  "split s sep = split_aux sep [] s"

text \<open>Lines 100-101: \<open>link_text = url.split('//')[-1]\<close> and the Markdown line written.\<close>

definition link_text :: "string \<Rightarrow> string" where
  "link_text url = last (split url ''//'')"

definition link_line :: "string \<Rightarrow> string" where
  "link_line url = ''- ['' @ link_text url @ '']('' @ url @ '')'' @ [CHR 0x0A]"

text \<open>\<open>xs[i:j]\<close> for indices \<open>0 \<le> i\<close> and \<open>0 \<le> j\<close>.\<close>

definition py_slice :: "'a list \<Rightarrow> nat \<Rightarrow> nat \<Rightarrow> 'a list" where
  "py_slice xs i j = take (j - i) (drop i xs)"

definition batch_size :: nat where
  "batch_size = 75"

text \<open>
  Line 75, \<open>(len(sorted_urls) + batch_size - 1) // batch_size\<close>. The batch size is a
  parameter here; the program fixes it to \<open>batch_size\<close>.
\<close>

definition num_batches :: "nat \<Rightarrow> string list \<Rightarrow> nat" where
  "num_batches bsize sorted_urls = (length sorted_urls + bsize - 1) div bsize"

text \<open>
  Lines 79-101, one pass of the loop for each \<open>i\<close> in \<open>range(num_batches)\<close>: the batch
  number \<open>i + 1\<close>, the slice of URLs, and the link lines written to the batch file.
\<close>

record batch =
  batch_file_number :: nat
  current_batch_urls :: "string list"
  link_lines :: "string list"

definition make_batch :: "nat \<Rightarrow> string list \<Rightarrow> nat \<Rightarrow> batch" where
  "make_batch bsize sorted_urls i =
     (let batch_start_index = i * bsize;
          batch_end_index = batch_start_index + bsize;
          urls = py_slice sorted_urls batch_start_index batch_end_index
      in \<lparr>batch_file_number = i + 1, current_batch_urls = urls,
          link_lines = map link_line urls\<rparr>)"

definition write_batches :: "nat \<Rightarrow> string list \<Rightarrow> batch list" where
  "write_batches bsize sorted_urls =
     map (make_batch bsize sorted_urls) [0..<num_batches bsize sorted_urls]"

text \<open>
  Lines 70-73: nothing is written for an empty URL set; otherwise the set is sorted
  (\<open>sorted(list(extracted_urls))\<close>, strings in lexicographic order of their characters).
\<close>

definition main_batches :: "nat \<Rightarrow> string set \<Rightarrow> batch list" where
  "main_batches bsize extracted_urls =
     (if extracted_urls = {} then []
      else write_batches bsize (sorted_list_of_set extracted_urls))"

section \<open>The sitemap regenerator (update\_sitemap.py)\<close>

subsection \<open>String helpers\<close>

text \<open>
  \<open>s.replace(old, new)\<close>: every occurrence found by a scan from the left is replaced; for
  an empty \<open>old\<close> Python puts \<open>new\<close> before every character and at the end.
\<close>

fun replace_aux :: "string \<Rightarrow> string \<Rightarrow> string \<Rightarrow> string" where
  "replace_aux old new [] = []"
| "replace_aux old new (c # cs) =
     (if old \<noteq> [] \<and> startswith (c # cs) old
      then new @ replace_aux old new (drop (length old) (c # cs))
      else c # replace_aux old new cs)"

definition replace :: "string \<Rightarrow> string \<Rightarrow> string \<Rightarrow> string" where
  "replace s old new =
     (if old = [] then new @ concat (map (\<lambda>c. c # new) s) else replace_aux old new s)"

text \<open>\<open>sep.join(xs)\<close>.\<close>

fun join :: "string \<Rightarrow> string list \<Rightarrow> string" where
  "join sep [] = []"
| "join sep [x] = x"
| "join sep (x # y # ys) = x @ sep @ join sep (y # ys)"

text \<open>\<open>os.path.join(a, b)\<close> and \<open>os.linesep\<close> on a POSIX system.\<close>

definition os_path_join :: "string \<Rightarrow> string \<Rightarrow> string" where
  "os_path_join a b =
     (if startswith b ''/'' then b
      else if a = [] \<or> endswith a ''/'' then a @ b
      else a @ ''/'' @ b)"

definition os_linesep :: string where
  "os_linesep = [CHR 0x0A]"

definition backslash :: char where
  "backslash = CHR 0x5C"

subsection \<open>generate\_sitemap\_entries\<close>

definition base_url :: string where
  "base_url = ''https://whik59140.github.io/links-italia''"

definition lists_dir :: string where
  "lists_dir = ''lists''"

text \<open>
  The two f-string templates of lines 10-15 and 33-38 have the same shape; the root entry
  fills in \<open>weekly\<close> and \<open>1.0\<close>, a file entry \<open>monthly\<close> and \<open>0.8\<close>.
\<close>

definition url_entry :: "string \<Rightarrow> string \<Rightarrow> string \<Rightarrow> string \<Rightarrow> string" where
  "url_entry loc lastmod changefreq priority =
     ''  <url>'' @ [CHR 0x0A] @
     ''    <loc>'' @ loc @ ''</loc>'' @ [CHR 0x0A] @
     ''    <lastmod>'' @ lastmod @ ''</lastmod>'' @ [CHR 0x0A] @
     ''    <changefreq>'' @ changefreq @ ''</changefreq>'' @ [CHR 0x0A] @
     ''    <priority>'' @ priority @ ''</priority>'' @ [CHR 0x0A] @
     ''  </url>''"

datatype py_exn = IOError string | Other_Error string

text \<open>
  What the function reads from its surroundings: \<open>today\<close> is
  \<open>datetime.date.today().isoformat()\<close> (one value for the whole run); \<open>lists_is_dir\<close> is
  \<open>os.path.exists(lists_dir) and os.path.isdir(lists_dir)\<close>; \<open>listdir\<close> is
  \<open>os.listdir(lists_dir)\<close>, which raises or returns the names in the directory's order;
  \<open>mtime_date p\<close> is \<open>date.fromtimestamp(os.path.getmtime(p)).isoformat()\<close>, \<open>None\<close> when
  one of the two calls raises.
\<close>

record dir_env =
  today :: string
  lists_is_dir :: bool
  listdir :: "py_exn + string list"
  mtime_date :: "string \<Rightarrow> string option"

definition root_entry :: "dir_env \<Rightarrow> string" where
  "root_entry D = url_entry (base_url @ ''/'') (today D) ''weekly'' ''1.0''"

definition file_entry :: "dir_env \<Rightarrow> string \<Rightarrow> string" where
  "file_entry D filename =
     (let filepath = os_path_join lists_dir filename;
          lastmod_date = (case mtime_date D filepath of Some d \<Rightarrow> d | None \<Rightarrow> today D);
          loc_path = replace (base_url @ ''/'' @ lists_dir @ ''/'' @ filename)
                       [backslash, backslash] ''/''
      in url_entry loc_path lastmod_date ''monthly'' ''0.8'')"

text \<open>Lines 19-38, the loop over the directory listing.\<close>

fun for_filenames :: "dir_env \<Rightarrow> string list \<Rightarrow> string list \<Rightarrow> string list" where
  "for_filenames D [] sitemap_entries = sitemap_entries"
| "for_filenames D (filename # rest) sitemap_entries =
     (if endswith filename ''.md''
      then for_filenames D rest (sitemap_entries @ [file_entry D filename])
      else for_filenames D rest sitemap_entries)"

text \<open>
  The result is the exception that escapes the function, or the list returned together with
  the lines printed.
\<close>

definition generate_sitemap_entries :: "dir_env \<Rightarrow> py_exn + (string list \<times> string list)" where
  "generate_sitemap_entries D =
     (let sitemap_entries = [root_entry D] in
      if lists_is_dir D
      then (case listdir D of
              Inl e \<Rightarrow> Inl e
            | Inr names \<Rightarrow> Inr (for_filenames D names sitemap_entries, []))
      else Inr (sitemap_entries, [''Warning: Directory '' @ [CHR 0x27] @ lists_dir @ [CHR 0x27] @ '' not found.'']))"

subsection \<open>write\_sitemap\<close>

text \<open>
  The files on disk are a map from paths to contents. \<open>io_env\<close> says how the three
  operations of the \<open>try\<close> block go: opening for writing may raise; the write may raise
  after some characters have reached the file; opening for the read-back may raise.
\<close>

type_synonym disk = "string \<rightharpoonup> string"

record io_env =
  open_w_raises :: "py_exn option"
  write_raises :: "(nat \<times> py_exn) option"
  open_r_raises :: "py_exn option"

record io_state =
  files :: disk
  printed :: "string list"

text \<open>\<open>printed\<close> collects the text handed to each call of \<open>print\<close>.\<close>

definition print :: "string \<Rightarrow> io_state \<Rightarrow> io_state" where
  "print s st = st\<lparr>printed := printed st @ [s]\<rparr>"

definition sitemap_content :: "string list \<Rightarrow> string" where
  "sitemap_content entries =
     ''<?xml version='' @ [CHR 0x22] @ ''1.0'' @ [CHR 0x22] @ '' encoding='' @ [CHR 0x22] @ ''UTF-8'' @ [CHR 0x22] @ ''?>'' @ [CHR 0x0A] @
     ''<urlset xmlns='' @ [CHR 0x22] @ ''http://www.sitemaps.org/schemas/sitemap/0.9'' @ [CHR 0x22] @ ''>'' @ [CHR 0x0A] @
     join os_linesep entries @ [CHR 0x0A] @
     ''</urlset>'' @ [CHR 0x0A]"

text \<open>
  The lines that \<open>readline\<close> hands over for a file opened in text mode: a line ends at
  LF, at CR or at CR LF, and each of these endings is handed over as LF.
\<close>

fun readlines_aux :: "string \<Rightarrow> string \<Rightarrow> string list" where
  "readlines_aux cur [] = (if cur = [] then [] else [cur])"
| "readlines_aux cur [c] =
     (if c = CHR 0x0A \<or> c = CHR 0x0D then [cur @ [CHR 0x0A]] else [cur @ [c]])"
| "readlines_aux cur (c # d # cs) =
     (if c = CHR 0x0A then (cur @ [CHR 0x0A]) # readlines_aux [] (d # cs)
      else if c = CHR 0x0D
      then (cur @ [CHR 0x0A]) # readlines_aux [] (if d = CHR 0x0A then cs else d # cs)
      else readlines_aux (cur @ [c]) (d # cs))"

definition readlines :: "string \<Rightarrow> string list" where
  "readlines s = readlines_aux [] s"

text \<open>
  Lines 51-62, the body of the \<open>try\<close> block: the state reached and the exception raised,
  if any. Opening with mode \<open>w\<close> truncates the file before anything is written.
\<close>

definition write_body :: "io_env \<Rightarrow> string \<Rightarrow> io_state \<Rightarrow> io_state \<times> py_exn option" where
  "write_body IO text st =
     (case open_w_raises IO of
        Some e \<Rightarrow> (st, Some e)
      | None \<Rightarrow>
          let st1 = st\<lparr>files := (files st)(''sitemap.xml'' \<mapsto> [])\<rparr> in
          (case write_raises IO of
             Some (k, e) \<Rightarrow> (st1\<lparr>files := (files st1)(''sitemap.xml'' \<mapsto> take k text)\<rparr>, Some e)
           | None \<Rightarrow>
               let st2 = st1\<lparr>files := (files st1)(''sitemap.xml'' \<mapsto> text)\<rparr>;
                   st3 = print ''sitemap.xml has been successfully updated.'' st2
               in (case files st3 ''sitemap.xml'' of
                     None \<Rightarrow> (st3, None)
                   | Some written \<Rightarrow>
                       (case open_r_raises IO of
                          Some e \<Rightarrow> (st3, Some e)
                        | None \<Rightarrow>
                            let st4 = print ([backslash] @ ''nFirst 15 lines of generated sitemap.xml:'') st3
                            in (fold print (take 15 (readlines written)) st4, None)))))"

text \<open>
  The handler of line 63 catches \<open>IOError\<close> only and prints; any other exception leaves
  the function.
\<close>

definition write_sitemap :: "io_env \<Rightarrow> string list \<Rightarrow> io_state \<Rightarrow> io_state \<times> py_exn option" where
  "write_sitemap IO entries st =
     (case write_body IO (sitemap_content entries) st of
        (st', Some (IOError msg)) \<Rightarrow> (print (''Error writing sitemap.xml: '' @ msg) st', None)
      | (st', r) \<Rightarrow> (st', r))"

section \<open>Auxiliary definitions for the properties and example data\<close>

subsection \<open>The crawler\<close>

text \<open>The events that print and change neither set.\<close>

definition is_print :: "event \<Rightarrow> bool" where
  "is_print e = (case e of Processed_Add _ \<Rightarrow> False | Requests_Get _ \<Rightarrow> False | All_Urls_Add _ \<Rightarrow> False | _ \<Rightarrow> True)"

text \<open>
  The URLs that the loop of lines 36-42 computes from a list of location elements, and the
  sub-sitemaps of a URL: the ones ending in \<open>.xml\<close> among those of the document served
  for it. A set of URLs is closed when it contains the sub-sitemaps of its members.
\<close>

fun loc_urls :: "element list \<Rightarrow> string list" where
  "loc_urls [] = []"
| "loc_urls (e # es) =
     (case text_of e of
        None \<Rightarrow> loc_urls es
      | Some t \<Rightarrow> if t = [] then loc_urls es else strip t # loc_urls es)"

definition sub_sitemaps :: "env \<Rightarrow> string \<Rightarrow> string list" where
  "sub_sitemaps E u =
     (case requests_get E u of
        Request_Exception \<Rightarrow> []
      | Uncaught_Exception \<Rightarrow> []
      | Response body \<Rightarrow>
          if bytes_strip body = [] then []
          else case fromstring E (bytes_strip body) of
                 Inl _ \<Rightarrow> []
               | Inr r \<Rightarrow> filter (\<lambda>u. endswith u ''.xml'') (loc_urls (loc_elements r)))"

definition closed_under_refs :: "env \<Rightarrow> string set \<Rightarrow> bool" where
  "closed_under_refs E S = (\<forall>u\<in>S. set (sub_sitemaps E u) \<subseteq> S)"

text \<open>
  The URLs handed to \<open>requests.get\<close> so far are pairwise different and all processed.
\<close>

definition fetch_inv :: "state \<Rightarrow> bool" where
  "fetch_inv st = (distinct (fetched (trace st)) \<and> set (fetched (trace st)) \<subseteq> processed_sitemaps st)"

text \<open>
  In a sequence of events, every fetch of a URL comes directly after the event that adds
  that URL to the processed set; the URLs added to either set by a sequence of events.
\<close>

definition adds_precede_gets :: "event list \<Rightarrow> bool" where
  "adds_precede_gets evs =
     (\<forall>pre u post. evs = pre @ Requests_Get u # post \<longrightarrow> (\<exists>pre'. pre = pre' @ [Processed_Add u]))"

definition added_sitemaps :: "event list \<Rightarrow> string set" where
  "added_sitemaps evs = {u. Processed_Add u \<in> set evs}"

definition added_urls :: "event list \<Rightarrow> string set" where
  "added_urls evs = {u. All_Urls_Add u \<in> set evs}"

text \<open>
  An example site. The index \<open>i.xml\<close> names \<open>a.xml\<close> twice (once with blanks around it),
  \<open>b.xml\<close>, a sitemap that cannot be fetched, one that is malformed, and a page; \<open>a.xml\<close>
  names the index, itself, \<open>c.xml\<close> and a page; \<open>c.xml\<close>, three levels down, names a
  sitemap that cannot be fetched and a page; \<open>b.xml\<close> has bare \<open>loc\<close> elements, one of
  them blank and one without text.
\<close>

definition ns_tag :: "string \<Rightarrow> string" where
  "ns_tag name = ''{'' @ sitemap_ns @ ''}'' @ name"

definition ns_loc :: "string \<Rightarrow> element" where
  "ns_loc t = Element (ns_tag ''sitemap'') None [Element ns_loc_tag (Some t) []]"

definition example_index :: element where
  "example_index = Element (ns_tag ''sitemapindex'') None
     [ns_loc '' a.xml '', ns_loc ''b.xml'', ns_loc ''a.xml'', ns_loc ''gone.xml'',
      ns_loc ''bad.xml'', ns_loc ''p0'']"

definition example_a :: element where
  "example_a = Element (ns_tag ''sitemapindex'') None
     [ns_loc ''i.xml'', ns_loc ''a.xml'', ns_loc ''c.xml'', ns_loc ''p1'']"

definition example_c :: element where
  "example_c = Element (ns_tag ''urlset'') None [ns_loc ''d.xml'', ns_loc ''p3'']"

definition example_b :: element where
  "example_b = Element ''urlset'' None
     [Element ''url'' None [Element ''loc'' (Some ''p2'') []],
      Element ''url'' None [Element ''loc'' (Some ''  '') []],
      Element ''url'' None [Element ''loc'' None []]]"

definition example_env :: env where
  "example_env = \<lparr>
     requests_get = (\<lambda>u.
       if u = ''i.xml'' then Response ''I''
       else if u = ''a.xml'' then Response ''A''
       else if u = ''b.xml'' then Response '' B ''
       else if u = ''c.xml'' then Response ''C''
       else if u = ''bad.xml'' then Response ''<''
       else Request_Exception),
     fromstring = (\<lambda>c.
       if c = ''I'' then Inr example_index
       else if c = ''A'' then Inr example_a
       else if c = ''B'' then Inr example_b
       else if c = ''C'' then Inr example_c
       else Inl Parse_Error)\<rparr>"

definition example_sitemaps :: "string set" where
  "example_sitemaps = {''i.xml'', ''a.xml'', ''b.xml'', ''c.xml'', ''d.xml'', ''gone.xml'', ''bad.xml''}"



text \<open>The state in which the run over the example site ends.\<close>

definition example_final :: state where
  "example_final =
  \<lparr>all_urls = {''p0'', [], ''p2'', ''p1'', ''p3''},
     processed_sitemaps =
       {''bad.xml'', ''gone.xml'', ''b.xml'', ''d.xml'', ''c.xml'',
        ''a.xml'', ''i.xml''},
     trace =
       [Print_Processing ''i.xml'', Processed_Add ''i.xml'',
        Requests_Get ''i.xml'', Print_Processing ''a.xml'',
        Processed_Add ''a.xml'', Requests_Get ''a.xml'',
        Print_Skipping ''i.xml'', Print_Skipping ''a.xml'',
        Print_Processing ''c.xml'', Processed_Add ''c.xml'',
        Requests_Get ''c.xml'', Print_Processing ''d.xml'',
        Processed_Add ''d.xml'', Requests_Get ''d.xml'',
        Print_Error_Fetching ''d.xml'', All_Urls_Add ''p3'',
        All_Urls_Add ''p1'', Print_Processing ''b.xml'',
        Processed_Add ''b.xml'', Requests_Get ''b.xml'',
        All_Urls_Add ''p2'', All_Urls_Add [], Print_Skipping ''a.xml'',
        Print_Processing ''gone.xml'', Processed_Add ''gone.xml'',
        Requests_Get ''gone.xml'', Print_Error_Fetching ''gone.xml'',
        Print_Processing ''bad.xml'', Processed_Add ''bad.xml'',
        Requests_Get ''bad.xml'', Print_Error_Parsing ''bad.xml'',
        All_Urls_Add ''p0'']\<rparr>"



text \<open>
  A document whose root is itself the namespaced \<open>loc\<close> element and has a bare \<open>loc\<close>
  child, and a site that serves it.
\<close>

definition root_is_loc :: element where
  "root_is_loc = Element ns_loc_tag (Some ''r'') [Element bare_loc_tag (Some ''x'') []]"

definition root_is_loc_env :: env where
  "root_is_loc_env = \<lparr>
     requests_get = (\<lambda>u. if u = ''s.xml'' then Response ''S'' else Request_Exception),
     fromstring = (\<lambda>c. if c = ''S'' then Inr root_is_loc else Inl Parse_Error)\<rparr>"

text \<open>The state in which a run over \<open>b.xml\<close> alone ends.\<close>

definition example_b_final :: state where
  "example_b_final =
     \<lparr>all_urls = {[], ''p2''}, processed_sitemaps = {''b.xml''},
      trace = [Print_Processing ''b.xml'', Processed_Add ''b.xml'', Requests_Get ''b.xml'',
               All_Urls_Add ''p2'', All_Urls_Add []]\<rparr>"

subsection \<open>The main program\<close>

text \<open>\<open>sub in s\<close>: the substring test.\<close>

fun str_contains :: "string \<Rightarrow> string \<Rightarrow> bool" where
  "str_contains [] sub = (sub = [])"
| "str_contains (c # cs) sub = (startswith (c # cs) sub \<or> str_contains cs sub)"

text \<open>
  The label as claim C8 words it: everything after the first \<open>//\<close>, the separator that
  follows the scheme (the URL itself when it has none).
\<close>

fun after_first :: "string \<Rightarrow> string \<Rightarrow> string" where
  "after_first sep [] = []"
| "after_first sep (c # cs) =
     (if startswith (c # cs) sep then drop (length sep) (c # cs) else after_first sep cs)"

definition claimed_label :: "string \<Rightarrow> string" where
  "claimed_label url = (if str_contains url ''//'' then after_first ''//'' url else url)"

subsection \<open>The regenerator\<close>

text \<open>
  The entries as claim C6 words them: the root entry, then for every listed name ending in
  \<open>.md\<close> an entry whose location is the base URL, the subdirectory and the name joined by
  slashes.
\<close>

definition claimed_file_entry :: "dir_env \<Rightarrow> string \<Rightarrow> string" where
  "claimed_file_entry D filename =
     url_entry (base_url @ ''/'' @ lists_dir @ ''/'' @ filename)
       (case mtime_date D (os_path_join lists_dir filename) of Some d \<Rightarrow> d | None \<Rightarrow> today D)
       ''monthly'' ''0.8''"

definition claimed_entries :: "dir_env \<Rightarrow> string list \<Rightarrow> string list" where
  "claimed_entries D names =
     url_entry (base_url @ ''/'') (today D) ''weekly'' ''1.0'' #
     map (claimed_file_entry D) (filter (\<lambda>f. endswith f ''.md'') names)"

text \<open>The list returned, if the function returns.\<close>

definition returned_entries :: "py_exn + (string list \<times> string list) \<Rightarrow> string list option" where
  "returned_entries r = (case r of Inl e \<Rightarrow> None | Inr (entries, out) \<Rightarrow> Some entries)"

text \<open>
  Three directory states: the two batch files of the specification's example; one file
  whose name has two backslashes in a row; a directory that exists and cannot be listed.
\<close>

definition example_dir :: dir_env where
  "example_dir = \<lparr>today = ''2026-11-04'', lists_is_dir = True,
     listdir = Inr [''list-002.md'', ''list-001.md''],
     mtime_date = (\<lambda>p. if p = ''lists/list-001.md'' then Some ''2026-10-01'' else None)\<rparr>"

definition double_backslash_dir :: dir_env where
  "double_backslash_dir = \<lparr>today = ''2026-11-04'', lists_is_dir = True,
     listdir = Inr [[CHR ''a'', backslash, backslash, CHR ''b'', CHR ''.'', CHR ''m'', CHR ''d'']],
     mtime_date = (\<lambda>p. None)\<rparr>"

definition unreadable_dir :: dir_env where
  "unreadable_dir = \<lparr>today = ''2026-11-04'', lists_is_dir = True,
     listdir = Inl (IOError ''Permission denied''),
     mtime_date = (\<lambda>p. None)\<rparr>"

text \<open>
  Every exception the surroundings raise is an \<open>IOError\<close>. Two behaviours of the disk (it
  fills up after five characters; nothing fails) and a disk that has an older sitemap.
\<close>

definition is_io_error :: "py_exn \<Rightarrow> bool" where
  "is_io_error e = (case e of IOError m \<Rightarrow> True | Other_Error m \<Rightarrow> False)"

definition only_io_errors :: "io_env \<Rightarrow> bool" where
  "only_io_errors IO =
     ((case open_w_raises IO of None \<Rightarrow> True | Some e \<Rightarrow> is_io_error e) \<and>
      (case write_raises IO of None \<Rightarrow> True | Some (k, e) \<Rightarrow> is_io_error e) \<and>
      (case open_r_raises IO of None \<Rightarrow> True | Some e \<Rightarrow> is_io_error e))"

definition disk_full :: io_env where
  "disk_full = \<lparr>open_w_raises = None,
     write_raises = Some (5, IOError ''No space left on device''), open_r_raises = None\<rparr>"

definition no_fault :: io_env where
  "no_fault = \<lparr>open_w_raises = None, write_raises = None, open_r_raises = None\<rparr>"

definition old_disk :: io_state where
  "old_disk = \<lparr>files = [''sitemap.xml'' \<mapsto> ''old'', ''README.md'' \<mapsto> ''readme''], printed = []\<rparr>"

section \<open>Auxiliary lemmas\<close>

subsection \<open>The crawler: invariants of a run\<close>

lemma strip_with_idem: "strip_with p (strip_with p s) = strip_with p s"
proof -
  define a where "a = dropWhile p s"
  define b where "b = dropWhile p (rev a)"
  have ra: "rev a = takeWhile p (rev a) @ b" by (simp add: b_def)
  then have a_eq: "a = rev b @ rev (takeWhile p (rev a))"
    by (metis rev_append rev_rev_ident)
  have "dropWhile p (rev b) = rev b"
  proof (cases "b = []")
    case True then show ?thesis by simp
  next
    case False
    then have "hd (rev b) = hd a" using a_eq by (metis hd_append2 rev_is_Nil_conv)
    moreover have "a \<noteq> []" using False a_eq by auto
    then have "\<not> p (hd a)" unfolding a_def by (metis hd_dropWhile)
    ultimately show ?thesis using False
      by (metis dropWhile_eq_self_iff)
  qed
  moreover have "dropWhile p b = b" by (simp add: b_def)
  ultimately show ?thesis by (simp add: strip_with_def a_def[symmetric] b_def[symmetric])
qed

lemma for_loc_elements_rule:
  assumes "for_loc_elements rec es st = Some out" and "I st"
    and "\<And>u s r. rec u s = Some r \<Longrightarrow> I s \<Longrightarrow> I (final r)"
    and "\<And>t s. I s \<Longrightarrow> t \<noteq> [] \<Longrightarrow> \<not> endswith (strip t) ''.xml'' \<Longrightarrow> I (all_urls_add (strip t) s)"
  shows "I (final out)"
  using assms(1,2)
proof (induction es arbitrary: st)
  case Nil
  then show ?case by auto
next
  case (Cons e es)
  show ?case
  proof (cases "text_of e")
    case None
    with Cons show ?thesis by simp
  next
    case (Some t)
    show ?thesis
    proof (cases "t = []")
      case True
      with Some Cons show ?thesis by simp
    next
      case False
      show ?thesis
      proof (cases "endswith (strip t) ''.xml''")
        case True
        with Some False Cons.prems(1) obtain r where r: "rec (strip t) st = Some r"
          by (auto simp: Let_def split: option.splits)
        from assms(3)[OF r Cons.prems(2)] have Ir: "I (final r)" .
        show ?thesis
        proof (cases r)
          case (Returns s1)
          with r Some False True Cons.prems(1) have "for_loc_elements rec es s1 = Some out"
            by (simp add: Let_def)
          with Cons.IH Ir Returns show ?thesis by simp
        next
          case (Raises s1)
          with r Some False True Cons.prems(1) have "out = Raises s1"
            by (simp add: Let_def)
          with Ir Raises show ?thesis by simp
        qed
      next
        case x: False
        with Some False Cons.prems have
          l: "for_loc_elements rec es (all_urls_add (strip t) st) = Some out"
          by (auto simp: Let_def)
        from assms(4)[OF Cons.prems(2) False x] Cons.IH l show ?thesis by blast
      qed
    qed
  qed
qed

lemma parse_and_walk_rule:
  assumes "parse_and_walk E rec url body st = Some st'" and "I st"
    and rc: "\<And>u s r. rec u s = Some r \<Longrightarrow> I s \<Longrightarrow> I (final r)"
    and pr: "\<And>e s. I s \<Longrightarrow> is_print e \<Longrightarrow> I (emit e s)"
    and ad: "\<And>t s. I s \<Longrightarrow> t \<noteq> [] \<Longrightarrow> \<not> endswith (strip t) ''.xml'' \<Longrightarrow>
              I (all_urls_add (strip t) s)"
  shows "I st'"
proof (cases "bytes_strip body = []")
  case True
  with assms(1) have "st' = emit (Print_Empty url) st" by (simp add: parse_and_walk_def)
  with pr[OF assms(2)] show ?thesis by (simp add: is_print_def)
next
  case ne: False
  show ?thesis
  proof (cases "fromstring E (bytes_strip body)")
    case (Inl x)
    with ne assms(1) have
      "st' = emit (Print_Error_Parsing url) st \<or> st' = emit (Print_Unexpected url) st"
      by (cases x) (auto simp: parse_and_walk_def)
    with pr[OF assms(2)] show ?thesis by (auto simp: is_print_def)
  next
    case (Inr r)
    with ne assms(1) obtain out where
      l: "for_loc_elements rec (loc_elements r) st = Some out"
      and o: "(\<exists>s. out = Raises s \<and> st' = emit (Print_Unexpected url) s) \<or> out = Returns st'"
      by (auto simp: parse_and_walk_def split: option.splits outcome.splits)
    have "I (final out)"
    proof (rule for_loc_elements_rule[where I = I, OF l assms(2)])
      show "\<And>u s r. rec u s = Some r \<Longrightarrow> I s \<Longrightarrow> I (final r)"
        using rc by blast
      show "\<And>t s. I s \<Longrightarrow> t \<noteq> [] \<Longrightarrow> \<not> endswith (strip t) ''.xml'' \<Longrightarrow>
              I (all_urls_add (strip t) s)"
        using ad by blast
    qed
    with o pr show ?thesis by (auto simp: is_print_def)
  qed
qed

lemma get_sitemap_urls_rule:
  assumes "get_sitemap_urls n E url st = Some out" and "I st"
    and pr: "\<And>e s. I s \<Longrightarrow> is_print e \<Longrightarrow> I (emit e s)"
    and mk: "\<And>u s. I s \<Longrightarrow> u \<notin> processed_sitemaps s \<Longrightarrow>
              I (emit (Requests_Get u) (processed_add u (emit (Print_Processing u) s)))"
    and ad: "\<And>t s. I s \<Longrightarrow> t \<noteq> [] \<Longrightarrow> \<not> endswith (strip t) ''.xml'' \<Longrightarrow>
              I (all_urls_add (strip t) s)"
  shows "I (final out)"
  using assms(1,2)
proof (induction n arbitrary: url st out)
  case 0
  then show ?case by simp
next
  case (Suc n)
  show ?case
  proof (cases "url \<in> processed_sitemaps st")
    case True
    with Suc.prems have "out = Returns (emit (Print_Skipping url) st)" by simp
    with pr[OF Suc.prems(2)] show ?thesis by (simp add: is_print_def)
  next
    case False
    define st2 where "st2 = emit (Requests_Get url) (processed_add url (emit (Print_Processing url) st))"
    have I2: "I st2" unfolding st2_def by (rule mk[OF Suc.prems(2) False])
    show ?thesis
    proof (cases "requests_get E url")
      case Request_Exception
      with False Suc.prems(1) have "out = Returns (emit (Print_Error_Fetching url) st2)"
        by (simp add: st2_def Let_def)
      with pr[OF I2] show ?thesis by (simp add: is_print_def)
    next
      case Uncaught_Exception
      with False Suc.prems(1) have "out = Raises st2"
        by (simp add: st2_def Let_def)
      with I2 show ?thesis by simp
    next
      case (Response body)
      with False Suc.prems(1) obtain st' where
        pw: "parse_and_walk E (get_sitemap_urls n E) url body st2 = Some st'"
        and out: "out = Returns st'"
        by (auto simp: st2_def Let_def split: option.splits)
      have "I st'"
      proof (rule parse_and_walk_rule[where I = I, OF pw I2])
        show "\<And>u s r. get_sitemap_urls n E u s = Some r \<Longrightarrow> I s \<Longrightarrow> I (final r)"
          using Suc.IH by blast
        show "\<And>e s. I s \<Longrightarrow> is_print e \<Longrightarrow> I (emit e s)"
          using pr by blast
        show "\<And>t s. I s \<Longrightarrow> t \<noteq> [] \<Longrightarrow> \<not> endswith (strip t) ''.xml'' \<Longrightarrow>
              I (all_urls_add (strip t) s)"
          using ad by blast
      qed
      with out show ?thesis by simp
    qed
  qed
qed

text \<open>An exception leaves a call only when its own request raised it.\<close>

lemma get_sitemap_urls_Raises:
  assumes "get_sitemap_urls n E url st = Some (Raises st')"
  shows "requests_get E url = Uncaught_Exception"
proof -
  obtain m where n: "n = Suc m" using assms by (cases n) simp_all
  show ?thesis using assms unfolding n
    by (cases "requests_get E url")
       (auto simp: Let_def split: if_splits option.splits)
qed

lemma processed_mono:
  assumes "get_sitemap_urls n E url st = Some out"
  shows "processed_sitemaps st \<subseteq> processed_sitemaps (final out)"
  by (rule get_sitemap_urls_rule[where I = "\<lambda>s. processed_sitemaps st \<subseteq> processed_sitemaps s", OF assms])
     (auto simp: emit_def processed_add_def all_urls_add_def)

lemma fetched_append [simp]: "fetched (xs @ ys) = fetched xs @ fetched ys"
  by (simp add: fetched_def)

lemma fetch_inv_preserved:
  assumes "get_sitemap_urls n E url st = Some out" and "fetch_inv st"
  shows "fetch_inv (final out)"
  by (rule get_sitemap_urls_rule[where I = fetch_inv, OF assms])
     (auto simp: emit_def processed_add_def all_urls_add_def fetch_inv_def is_print_def fetched_def
           split: event.splits)

subsection \<open>The crawler: the call returns on a finite closed set\<close>

lemma for_loc_elements_returns:
  assumes "\<And>u s. u \<in> S \<Longrightarrow> P \<subseteq> processed_sitemaps s \<Longrightarrow>
             \<exists>r. rec u s = Some r \<and> P \<subseteq> processed_sitemaps (final r)"
    and "set (filter (\<lambda>u. endswith u ''.xml'') (loc_urls es)) \<subseteq> S"
    and "P \<subseteq> processed_sitemaps st"
  shows "\<exists>out. for_loc_elements rec es st = Some out"
  using assms(2,3)
proof (induction es arbitrary: st)
  case Nil
  then show ?case by simp
next
  case (Cons e es)
  show ?case
  proof (cases "text_of e")
    case None
    with Cons show ?thesis by simp
  next
    case (Some t)
    show ?thesis
    proof (cases "t = []")
      case True
      with Some Cons show ?thesis by simp
    next
      case False
      show ?thesis
      proof (cases "endswith (strip t) ''.xml''")
        case True
        with Some False Cons.prems(1) have "strip t \<in> S" and
          rest: "set (filter (\<lambda>u. endswith u ''.xml'') (loc_urls es)) \<subseteq> S" by auto
        from assms(1)[OF this(1) Cons.prems(2)] obtain r where
          r: "rec (strip t) st = Some r" and p: "P \<subseteq> processed_sitemaps (final r)" by blast
        show ?thesis
        proof (cases r)
          case (Returns s1)
          with p have "P \<subseteq> processed_sitemaps s1" by simp
          from Cons.IH[OF rest this] r Returns Some False True show ?thesis by (simp add: Let_def)
        next
          case (Raises s1)
          with r Some False True show ?thesis by (simp add: Let_def)
        qed
      next
        case x: False
        with Some False Cons.prems(1) have
          rest: "set (filter (\<lambda>u. endswith u ''.xml'') (loc_urls es)) \<subseteq> S" by auto
        have "P \<subseteq> processed_sitemaps (all_urls_add (strip t) st)"
          using Cons.prems(2) by (simp add: all_urls_add_def emit_def)
        from Cons.IH[OF rest this] Some False x show ?thesis by (simp add: Let_def)
      qed
    qed
  qed
qed

lemma get_sitemap_urls_returns:
  assumes "finite S" and "closed_under_refs E S"
  shows "url \<in> S \<Longrightarrow> card (S - processed_sitemaps st) < n \<Longrightarrow>
         \<exists>out. get_sitemap_urls n E url st = Some out"
proof (induction n arbitrary: url st)
  case 0
  then show ?case by simp
next
  case (Suc n)
  show ?case
  proof (cases "url \<in> processed_sitemaps st")
    case True
    then show ?thesis by simp
  next
    case False
    define st2 where "st2 = emit (Requests_Get url) (processed_add url (emit (Print_Processing url) st))"
    have p2: "processed_sitemaps st2 = insert url (processed_sitemaps st)"
      by (simp add: st2_def emit_def processed_add_def)
    have "card (S - processed_sitemaps st2) < card (S - processed_sitemaps st)"
      unfolding p2 using False Suc.prems(1) assms(1)
      by (intro psubset_card_mono) auto
    with Suc.prems(2) have small: "card (S - processed_sitemaps st2) < n" by simp
    show ?thesis
    proof (cases "requests_get E url")
      case Request_Exception
      with False show ?thesis by (simp add: Let_def)
    next
      case Uncaught_Exception
      with False show ?thesis by (simp add: Let_def)
    next
      case (Response body)
      show ?thesis
      proof (cases "bytes_strip body = []")
        case True
        with Response False show ?thesis by (simp add: parse_and_walk_def Let_def)
      next
        case ne: False
        show ?thesis
        proof (cases "fromstring E (bytes_strip body)")
          case (Inl x)
          with ne Response False show ?thesis
            by (cases x) (simp_all add: parse_and_walk_def Let_def)
        next
          case (Inr r)
          have refs: "set (filter (\<lambda>u. endswith u ''.xml'') (loc_urls (loc_elements r))) \<subseteq> S"
          proof -
            have "sub_sitemaps E url = filter (\<lambda>u. endswith u ''.xml'') (loc_urls (loc_elements r))"
              using Response ne Inr by (simp add: sub_sitemaps_def)
            moreover have "set (sub_sitemaps E url) \<subseteq> S"
              using assms(2) Suc.prems(1) by (simp add: closed_under_refs_def)
            ultimately show ?thesis by simp
          qed
          have step: "\<exists>r. get_sitemap_urls n E u s = Some r \<and>
                        processed_sitemaps st2 \<subseteq> processed_sitemaps (final r)"
            if "u \<in> S" and "processed_sitemaps st2 \<subseteq> processed_sitemaps s" for u s
          proof -
            have "S - processed_sitemaps s \<subseteq> S - processed_sitemaps st2" using that(2) by auto
            then have "card (S - processed_sitemaps s) \<le> card (S - processed_sitemaps st2)"
              using assms(1) by (intro card_mono) auto
            with small have "card (S - processed_sitemaps s) < n" by simp
            from Suc.IH[OF that(1) this] obtain s' where s': "get_sitemap_urls n E u s = Some s'" by blast
            from processed_mono[OF s'] that(2) s' show ?thesis by blast
          qed
          have "\<exists>out. for_loc_elements (get_sitemap_urls n E) (loc_elements r) st2 = Some out"
            by (rule for_loc_elements_returns[where S = S and P = "processed_sitemaps st2"])
               (use step refs in auto)
          then obtain out where
            "for_loc_elements (get_sitemap_urls n E) (loc_elements r) st2 = Some out" ..
          with Response ne Inr False show ?thesis
            by (cases out) (simp_all add: parse_and_walk_def Let_def st2_def)
        qed
      qed
    qed
  qed
qed

lemma adds_precede_gets_Nil: "adds_precede_gets []"
  by (simp add: adds_precede_gets_def)

lemma adds_precede_gets_snoc:
  assumes "adds_precede_gets evs" and "\<And>u. e \<noteq> Requests_Get u"
  shows "adds_precede_gets (evs @ [e])"
  unfolding adds_precede_gets_def
proof (intro allI impI)
  fix pre u post
  assume eq: "evs @ [e] = pre @ Requests_Get u # post"
  show "\<exists>pre'. pre = pre' @ [Processed_Add u]"
  proof (cases post rule: rev_cases)
    case Nil
    with eq assms(2) show ?thesis by auto
  next
    case (snoc post' x)
    with eq have "evs = pre @ Requests_Get u # post'" by simp
    with assms(1) show ?thesis by (simp add: adds_precede_gets_def)
  qed
qed

lemma adds_precede_gets_mark:
  assumes "adds_precede_gets evs"
  shows "adds_precede_gets (evs @ [Print_Processing u, Processed_Add u, Requests_Get u])"
  unfolding adds_precede_gets_def
proof (intro allI impI)
  fix pre v post
  assume eq: "evs @ [Print_Processing u, Processed_Add u, Requests_Get u] = pre @ Requests_Get v # post"
  show "\<exists>pre'. pre = pre' @ [Processed_Add v]"
  proof (cases post rule: rev_cases)
    case Nil
    with eq have "evs @ [Print_Processing u, Processed_Add u] = pre" and "u = v"
      by auto
    then show ?thesis by (intro exI[of _ "evs @ [Print_Processing u]"]) auto
  next
    case (snoc post' x)
    with eq have "(evs @ [Print_Processing u, Processed_Add u]) @ [Requests_Get u] = (pre @ Requests_Get v # post') @ [x]"
      by simp
    then have e2: "evs @ [Print_Processing u, Processed_Add u] = pre @ Requests_Get v # post'"
      by (metis append1_eq_conv)
    have "adds_precede_gets ((evs @ [Print_Processing u]) @ [Processed_Add u])"
      by (intro adds_precede_gets_snoc assms) simp_all
    with e2 show ?thesis by (simp add: adds_precede_gets_def)
  qed
qed

lemma run_summary:
  assumes "get_sitemap_urls n E url st = Some out"
  shows "\<exists>evs. trace (final out) = trace st @ evs \<and>
           processed_sitemaps (final out) = processed_sitemaps st \<union> added_sitemaps evs \<and>
           all_urls (final out) = all_urls st \<union> added_urls evs \<and>
           adds_precede_gets evs \<and>
           (\<forall>u\<in>added_urls evs. strip u = u \<and> \<not> endswith u ''.xml'')"
  (is "?I (final out)")
proof (rule get_sitemap_urls_rule[where I = ?I, OF assms])
  show "?I st"
    by (rule exI[of _ "[]"]) (simp add: added_sitemaps_def added_urls_def adds_precede_gets_Nil)
next
  fix e s
  assume "?I s" and p: "is_print e"
  then obtain evs where evs: "trace s = trace st @ evs"
    "processed_sitemaps s = processed_sitemaps st \<union> added_sitemaps evs"
    "all_urls s = all_urls st \<union> added_urls evs" "adds_precede_gets evs"
    "\<forall>u\<in>added_urls evs. strip u = u \<and> \<not> endswith u ''.xml''" by blast
  from p have ne: "\<And>u. e \<noteq> Requests_Get u" "\<And>u. e \<noteq> Processed_Add u" "\<And>u. e \<noteq> All_Urls_Add u"
    by (auto simp: is_print_def)
  have "added_sitemaps (evs @ [e]) = added_sitemaps evs" "added_urls (evs @ [e]) = added_urls evs"
    using ne by (auto simp: added_sitemaps_def added_urls_def)
  with evs adds_precede_gets_snoc[OF evs(4) ne(1)] show "?I (emit e s)"
    by (intro exI[of _ "evs @ [e]"]) (simp add: emit_def)
next
  fix u s
  assume "?I s" and "u \<notin> processed_sitemaps s"
  then obtain evs where evs: "trace s = trace st @ evs"
    "processed_sitemaps s = processed_sitemaps st \<union> added_sitemaps evs"
    "all_urls s = all_urls st \<union> added_urls evs" "adds_precede_gets evs"
    "\<forall>u\<in>added_urls evs. strip u = u \<and> \<not> endswith u ''.xml''" by blast
  let ?new = "[Print_Processing u, Processed_Add u, Requests_Get u]"
  have "added_sitemaps (evs @ ?new) = insert u (added_sitemaps evs)"
    "added_urls (evs @ ?new) = added_urls evs"
    by (auto simp: added_sitemaps_def added_urls_def)
  with evs adds_precede_gets_mark[OF evs(4), of u]
  show "?I (emit (Requests_Get u) (processed_add u (emit (Print_Processing u) s)))"
    by (intro exI[of _ "evs @ ?new"]) (simp add: emit_def processed_add_def)
next
  fix t s
  assume "?I s" and t: "t \<noteq> []" "\<not> endswith (strip t) ''.xml''"
  then obtain evs where evs: "trace s = trace st @ evs"
    "processed_sitemaps s = processed_sitemaps st \<union> added_sitemaps evs"
    "all_urls s = all_urls st \<union> added_urls evs" "adds_precede_gets evs"
    "\<forall>u\<in>added_urls evs. strip u = u \<and> \<not> endswith u ''.xml''" by blast
  let ?e = "All_Urls_Add (strip t)"
  have "added_sitemaps (evs @ [?e]) = added_sitemaps evs"
    "added_urls (evs @ [?e]) = insert (strip t) (added_urls evs)"
    by (auto simp: added_sitemaps_def added_urls_def)
  moreover have "strip (strip t) = strip t" by (simp add: strip_def strip_with_idem)
  moreover have "adds_precede_gets (evs @ [?e])" by (intro adds_precede_gets_snoc evs) simp
  ultimately show "?I (all_urls_add (strip t) s)"
    using evs t by (intro exI[of _ "evs @ [?e]"]) (simp add: emit_def all_urls_add_def)
qed

subsection \<open>The crawler: the example run\<close>

lemma ex_closed: "closed_under_refs example_env example_sitemaps"
  by (simp add: closed_under_refs_def example_sitemaps_def sub_sitemaps_def example_env_def
      bytes_strip_def strip_with_def bytes_isspace_def strip_def isspace_def endswith_def
      example_index_def example_a_def example_b_def example_c_def ns_loc_def ns_tag_def
      loc_elements_def findall_descendants_def ns_loc_tag_def bare_loc_tag_def sitemap_ns_def) auto

lemmas ex_defs = example_env_def
      bytes_strip_def strip_with_def bytes_isspace_def strip_def isspace_def endswith_def
      example_index_def example_a_def example_b_def example_c_def ns_loc_def ns_tag_def
      loc_elements_def findall_descendants_def ns_loc_tag_def bare_loc_tag_def sitemap_ns_def
      parse_and_walk_def emit_def processed_add_def all_urls_add_def initial_state_def Let_def

lemma url_processed_after:
  assumes "get_sitemap_urls n E url st = Some out"
  shows "url \<in> processed_sitemaps (final out)"
proof (cases "url \<in> processed_sitemaps st")
  case True
  with processed_mono[OF assms] show ?thesis by blast
next
  case False
  obtain m where n: "n = Suc m" using assms by (cases n) simp_all
  define st2 where "st2 = emit (Requests_Get url) (processed_add url (emit (Print_Processing url) st))"
  have "processed_sitemaps st2 \<subseteq> processed_sitemaps (final out)"
  proof (cases "requests_get E url")
    case Request_Exception
    with assms False n show ?thesis by (auto simp: st2_def Let_def emit_def)
  next
    case Uncaught_Exception
    with assms False n show ?thesis by (auto simp: st2_def Let_def emit_def)
  next
    case (Response body)
    with assms False n obtain st' where
      pw: "parse_and_walk E (get_sitemap_urls m E) url body st2 = Some st'"
      and out: "out = Returns st'"
      by (auto simp: st2_def Let_def split: option.splits)
    have mono: "processed_sitemaps st2 \<subseteq> processed_sitemaps (final r)"
      if "get_sitemap_urls m E u s = Some r" and "processed_sitemaps st2 \<subseteq> processed_sitemaps s"
      for u s r
      using processed_mono[OF that(1)] that(2) by blast
    have "processed_sitemaps st2 \<subseteq> processed_sitemaps st'"
      by (rule parse_and_walk_rule[where I = "\<lambda>s. processed_sitemaps st2 \<subseteq> processed_sitemaps s", OF pw])
         (use mono in \<open>auto simp: emit_def all_urls_add_def\<close>)
    with out show ?thesis by simp
  qed
  then show ?thesis by (auto simp: st2_def emit_def processed_add_def)
qed

lemma trace_starts_with_fetch:
  assumes "get_sitemap_urls n E url st = Some out" and "url \<notin> processed_sitemaps st"
  shows "\<exists>rest. trace (final out) =
           trace st @ [Print_Processing url, Processed_Add url, Requests_Get url] @ rest"
proof -
  obtain m where n: "n = Suc m" using assms by (cases n) simp_all
  define st2 where "st2 = emit (Requests_Get url) (processed_add url (emit (Print_Processing url) st))"
  have t2: "trace st2 = trace st @ [Print_Processing url, Processed_Add url, Requests_Get url]"
    by (simp add: st2_def emit_def processed_add_def)
  have "\<exists>rest. trace (final out) = trace st2 @ rest"
  proof (cases "requests_get E url")
    case Request_Exception
    with assms n show ?thesis by (auto simp: st2_def Let_def emit_def)
  next
    case Uncaught_Exception
    with assms n show ?thesis by (auto simp: st2_def Let_def emit_def)
  next
    case (Response body)
    with assms n obtain st' where
      pw: "parse_and_walk E (get_sitemap_urls m E) url body st2 = Some st'"
      and out: "out = Returns st'"
      by (auto simp: st2_def Let_def split: option.splits)
    have ext: "\<exists>rest. trace (final r) = trace st2 @ rest"
      if "get_sitemap_urls m E u s = Some r" and "\<exists>rest. trace s = trace st2 @ rest" for u s r
      using run_summary[OF that(1)] that(2) by auto
    have "\<exists>rest. trace st' = trace st2 @ rest"
      by (rule parse_and_walk_rule[where I = "\<lambda>s. \<exists>rest. trace s = trace st2 @ rest", OF pw])
         (use ext in \<open>auto simp: emit_def all_urls_add_def\<close>)
    with out show ?thesis by simp
  qed
  with t2 show ?thesis by auto
qed

lemma example_run:
  "get_sitemap_urls 8 example_env ''i.xml'' initial_state = Some (Returns example_final)"
  by (simp add: eval_nat_numeral ex_defs example_final_def)

lemma loc_urls_text:
  "e \<in> set es \<Longrightarrow> text_of e = Some t \<Longrightarrow> t \<noteq> [] \<Longrightarrow> strip t \<in> set (loc_urls es)"
  by (induction es) (auto split: option.splits)

lemma for_loc_elements_visits_all:
  assumes "for_loc_elements rec es st = Some out"
    and mono: "\<And>u a r. rec u a = Some r \<Longrightarrow>
       all_urls a \<subseteq> all_urls (final r) \<and> processed_sitemaps a \<subseteq> processed_sitemaps (final r) \<and>
       u \<in> processed_sitemaps (final r)"
    and nor: "\<And>u a b. u \<in> set (loc_urls es) \<Longrightarrow> endswith u ''.xml'' \<Longrightarrow> rec u a \<noteq> Some (Raises b)"
  shows "\<exists>st'. out = Returns st' \<and> all_urls st \<subseteq> all_urls st' \<and>
           processed_sitemaps st \<subseteq> processed_sitemaps st' \<and>
           (\<forall>u\<in>set (loc_urls es).
              if endswith u ''.xml'' then u \<in> processed_sitemaps st' else u \<in> all_urls st')"
  using assms(1,3)
proof (induction es arbitrary: st)
  case Nil
  then show ?case by auto
next
  case (Cons e es)
  show ?case
  proof (cases "text_of e")
    case None
    with Cons.prems have l: "for_loc_elements rec es st = Some out"
      and lu: "loc_urls (e # es) = loc_urls es" by simp_all
    from Cons.IH[OF l] Cons.prems(2) show ?thesis unfolding lu by blast
  next
    case (Some t)
    show ?thesis
    proof (cases "t = []")
      case True
      with Some Cons.prems have l: "for_loc_elements rec es st = Some out"
        and lu: "loc_urls (e # es) = loc_urls es" by simp_all
      from Cons.IH[OF l] Cons.prems(2) show ?thesis unfolding lu by blast
    next
      case False
      with Some have lu: "loc_urls (e # es) = strip t # loc_urls es" by simp
      have nor': "\<And>u a b. u \<in> set (loc_urls es) \<Longrightarrow> endswith u ''.xml'' \<Longrightarrow> rec u a \<noteq> Some (Raises b)"
        using Cons.prems(2) unfolding lu by simp
      show ?thesis
      proof (cases "endswith (strip t) ''.xml''")
        case True
        with Some False Cons.prems(1) obtain r where r: "rec (strip t) st = Some r"
          by (auto simp: Let_def split: option.splits)
        have "\<And>b. r \<noteq> Raises b" using Cons.prems(2)[of "strip t" st] r True unfolding lu by auto
        then obtain s1 where r1: "r = Returns s1" by (cases r) auto
        with r Some False True Cons.prems(1) have l: "for_loc_elements rec es s1 = Some out"
          by (simp add: Let_def)
        from mono[OF r] r1 have m: "all_urls st \<subseteq> all_urls s1"
          "processed_sitemaps st \<subseteq> processed_sitemaps s1" "strip t \<in> processed_sitemaps s1"
          by simp_all
        from Cons.IH[OF l nor'] obtain st' where st': "out = Returns st'"
          "all_urls s1 \<subseteq> all_urls st'" "processed_sitemaps s1 \<subseteq> processed_sitemaps st'"
          "\<forall>u\<in>set (loc_urls es).
              if endswith u ''.xml'' then u \<in> processed_sitemaps st' else u \<in> all_urls st'"
          by blast
        with m True show ?thesis unfolding lu by auto
      next
        case x: False
        with Some False Cons.prems(1) have
          l: "for_loc_elements rec es (all_urls_add (strip t) st) = Some out"
          by (simp add: Let_def)
        have a: "all_urls (all_urls_add (strip t) st) = insert (strip t) (all_urls st)"
          "processed_sitemaps (all_urls_add (strip t) st) = processed_sitemaps st"
          by (simp_all add: all_urls_add_def emit_def)
        from Cons.IH[OF l nor'] obtain st' where st': "out = Returns st'"
          "all_urls (all_urls_add (strip t) st) \<subseteq> all_urls st'"
          "processed_sitemaps (all_urls_add (strip t) st) \<subseteq> processed_sitemaps st'"
          "\<forall>u\<in>set (loc_urls es).
              if endswith u ''.xml'' then u \<in> processed_sitemaps st' else u \<in> all_urls st'"
          by blast
        with a x show ?thesis unfolding lu by auto
      qed
    qed
  qed
qed

lemma document_visited:
  assumes run: "get_sitemap_urls m E p s = Some out" and np: "p \<notin> processed_sitemaps s"
    and resp: "requests_get E p = Response body" and ne: "bytes_strip body \<noteq> []"
    and parse: "fromstring E (bytes_strip body) = Inr r"
    and nu: "\<forall>c\<in>set (sub_sitemaps E p). requests_get E c \<noteq> Uncaught_Exception"
  shows "\<exists>s'. out = Returns s' \<and>
           (\<forall>u\<in>set (loc_urls (loc_elements r)).
              if endswith u ''.xml'' then u \<in> processed_sitemaps s' else u \<in> all_urls s')"
proof -
  obtain k where m: "m = Suc k" using run by (cases m) simp_all
  define st2 where "st2 = emit (Requests_Get p) (processed_add p (emit (Print_Processing p) s))"
  from run np resp m obtain s' where
    pw: "parse_and_walk E (get_sitemap_urls k E) p body st2 = Some s'" and out: "out = Returns s'"
    by (auto simp: st2_def Let_def split: option.splits)
  from pw ne parse obtain o2 where
    l: "for_loc_elements (get_sitemap_urls k E) (loc_elements r) st2 = Some o2"
    and o: "(\<exists>x. o2 = Raises x) \<or> o2 = Returns s'"
    by (auto simp: parse_and_walk_def split: option.splits outcome.splits)
  have subs: "sub_sitemaps E p = filter (\<lambda>u. endswith u ''.xml'') (loc_urls (loc_elements r))"
    using resp ne parse by (simp add: sub_sitemaps_def)
  have mono: "all_urls a \<subseteq> all_urls (final x) \<and> processed_sitemaps a \<subseteq> processed_sitemaps (final x) \<and>
       u \<in> processed_sitemaps (final x)" if "get_sitemap_urls k E u a = Some x" for u a x
    using run_summary[OF that] url_processed_after[OF that] by auto
  have nor: "get_sitemap_urls k E u a \<noteq> Some (Raises b)"
    if "u \<in> set (loc_urls (loc_elements r))" "endswith u ''.xml''" for u a b
  proof
    assume "get_sitemap_urls k E u a = Some (Raises b)"
    then have "requests_get E u = Uncaught_Exception" by (rule get_sitemap_urls_Raises)
    moreover have "u \<in> set (sub_sitemaps E p)" using that unfolding subs by simp
    ultimately show False using nu by blast
  qed
  from for_loc_elements_visits_all[OF l mono nor] obtain st' where
    "o2 = Returns st'"
    "\<forall>u\<in>set (loc_urls (loc_elements r)).
        if endswith u ''.xml'' then u \<in> processed_sitemaps st' else u \<in> all_urls st'"
    by blast
  with o out show ?thesis by auto
qed


lemma findall_descendants_tag: "e \<in> set (findall_descendants tg r) \<Longrightarrow> tag e = tg"
  by (simp add: findall_descendants_def)

lemma strip_all_space:
  assumes "\<forall>c\<in>set t. isspace c"
  shows "strip t = []"
proof -
  from assms have d: "dropWhile isspace t = []" by simp
  show ?thesis unfolding strip_def strip_with_def d by simp
qed

lemma example_b_locs: "loc_elements example_b =
  [Element ''loc'' (Some ''p2'') [], Element ''loc'' (Some ''  '') [], Element ''loc'' None []]"
  by (simp add: loc_elements_def findall_descendants_def example_b_def ns_loc_tag_def
      bare_loc_tag_def sitemap_ns_def)

subsection \<open>Batching\<close>

lemma num_batches_ceiling:
  assumes "0 < B"
  shows "int ((N + B - 1) div B) = \<lceil>real N / real B\<rceil>"
proof -
  define k where "k = (N + B - 1) div B"
  define r where "r = (N + B - 1) mod B"
  have "N + B - 1 = k * B + r" by (simp add: k_def r_def)
  moreover have rB: "r < B" using assms by (simp add: r_def)
  ultimately have e: "N + B = k * B + r + 1" using assms by linarith
  have up: "N \<le> k * B" using e rB by linarith
  have lo: "k * B < N + B" using e by linarith
  have "real N \<le> real k * real B" using up by (metis of_nat_le_iff of_nat_mult)
  then have a: "real N / real B \<le> of_int (int k)" using assms by (simp add: pos_divide_le_eq)
  have "real k * real B < real N + real B" using lo by (metis of_nat_less_iff of_nat_mult of_nat_add)
  then have "(real k - 1) * real B < real N" by (simp add: algebra_simps)
  then have b: "of_int (int k) - 1 < real N / real B" using assms by (simp add: pos_less_divide_eq)
  from ceiling_unique[OF b a] show ?thesis by (simp add: k_def)
qed

lemma num_batches_bounds:
  fixes N B :: nat
  assumes "0 < B"
  shows "N \<le> ((N + B - 1) div B) * B" and "((N + B - 1) div B) * B < N + B"
proof -
  define k where "k = (N + B - 1) div B"
  define r where "r = (N + B - 1) mod B"
  have "N + B - 1 = k * B + r" by (simp add: k_def r_def)
  moreover have rB: "r < B" using assms by (simp add: r_def)
  ultimately have e: "N + B = k * B + r + 1" using assms by linarith
  show "N \<le> ((N + B - 1) div B) * B" using e rB unfolding k_def by linarith
  show "((N + B - 1) div B) * B < N + B" using e unfolding k_def by linarith
qed

lemma concat_slices:
  "concat (map (\<lambda>i. py_slice xs (i * B) (i * B + B)) [0..<n]) = take (n * B) xs"
proof (induction n)
  case 0
  then show ?case by simp
next
  case (Suc n)
  have "take (n * B) xs @ take B (drop (n * B) xs) = take (n * B + B) xs"
    by (simp add: take_add)
  with Suc show ?case by (simp add: py_slice_def add.commute)
qed

lemma main_batches_eq:
  assumes "0 < bsize"
  shows "main_batches bsize urls = write_batches bsize (sorted_list_of_set urls)"
  using assms by (simp add: main_batches_def write_batches_def num_batches_def)

lemma length_write_batches: "length (write_batches B xs) = (length xs + B - 1) div B"
  by (simp add: write_batches_def num_batches_def)

lemma nth_write_batches:
  assumes "i < length (write_batches B xs)"
  shows "write_batches B xs ! i =
    \<lparr>batch_file_number = i + 1, current_batch_urls = py_slice xs (i * B) (i * B + B),
     link_lines = map link_line (py_slice xs (i * B) (i * B + B))\<rparr>"
  using assms by (simp add: write_batches_def make_batch_def Let_def)

lemma concat_write_batches:
  assumes "0 < B"
  shows "concat (map current_batch_urls (write_batches B xs)) = xs"
proof -
  have "map current_batch_urls (write_batches B xs) =
        map (\<lambda>i. py_slice xs (i * B) (i * B + B)) [0..<(length xs + B - 1) div B]"
    by (simp add: write_batches_def num_batches_def make_batch_def Let_def)
  then have "concat (map current_batch_urls (write_batches B xs)) =
             take (((length xs + B - 1) div B) * B) xs"
    by (simp add: concat_slices)
  then show ?thesis using num_batches_bounds(1)[OF assms, of "length xs"] by simp
qed

lemma slice_lengths:
  assumes "0 < B" and "i < (length xs + B - 1) div B"
  shows "0 < length (py_slice xs (i * B) (i * B + B))"
    and "length (py_slice xs (i * B) (i * B + B)) \<le> B"
    and "i + 1 < (length xs + B - 1) div B \<Longrightarrow> length (py_slice xs (i * B) (i * B + B)) = B"
proof -
  let ?n = "(length xs + B - 1) div B"
  have len: "length (py_slice xs (i * B) (i * B + B)) = min B (length xs - i * B)"
    by (simp add: py_slice_def min.commute)
  from assms(2) have "(i + 1) * B \<le> ?n * B" by (intro mult_le_mono1) simp
  with num_batches_bounds(2)[OF assms(1), of "length xs"] have "(i + 1) * B < length xs + B"
    by linarith
  then have "i * B < length xs" by simp
  with assms(1) len show "0 < length (py_slice xs (i * B) (i * B + B))" by simp
  from len show "length (py_slice xs (i * B) (i * B + B)) \<le> B" by simp
  assume "i + 1 < ?n"
  then have "(i + 2) * B \<le> ?n * B" by (intro mult_le_mono1) simp
  with num_batches_bounds(2)[OF assms(1), of "length xs"] have "(i + 2) * B < length xs + B"
    by linarith
  then have "i * B + B < length xs" by simp
  with len show "length (py_slice xs (i * B) (i * B + B)) = B" by simp
qed

subsection \<open>The display label\<close>

lemma split_aux_not_Nil: "split_aux sep cur s \<noteq> []"
  by (induction sep cur s rule: split_aux.induct) auto

lemma split_aux_no_sep:
  "sep \<noteq> [] \<Longrightarrow> \<not> str_contains s sep \<Longrightarrow> split_aux sep cur s = [cur @ s]"
  by (induction s arbitrary: cur) auto

lemma last_split_aux_scheme:
  assumes "\<not> str_contains (pre @ ''/'') ''//''" and "\<not> str_contains rest ''//''"
  shows "last (split_aux ''//'' cur (pre @ ''//'' @ rest)) = rest"
  using assms(1)
proof (induction pre arbitrary: cur)
  case Nil
  have "split_aux ''//'' cur (''//'' @ rest) = cur # split_aux ''//'' [] rest"
    by (simp add: startswith_def)
  also have "split_aux ''//'' [] rest = [rest]"
    using split_aux_no_sep[OF _ assms(2), of "[]"] by simp
  finally show ?case by simp
next
  case (Cons c p)
  from Cons.prems have ns: "\<not> startswith ((c # p) @ ''/'') ''//''"
    and rest: "\<not> str_contains (p @ ''/'') ''//''" by simp_all
  from ns have "\<not> startswith ((c # p) @ ''//'' @ rest) ''//''"
    by (cases p) (auto simp: startswith_def)
  then have "split_aux ''//'' cur ((c # p) @ ''//'' @ rest) =
             split_aux ''//'' (cur @ [c]) (p @ ''//'' @ rest)" by simp
  with Cons.IH[OF rest] show ?case by simp
qed

lemma last_split_aux_suffix:
  "last (split_aux sep cur s) = cur @ s \<or> (\<exists>p. s = p @ sep @ last (split_aux sep cur s))"
proof (induction sep cur s rule: split_aux.induct)
  case (1 sep cur)
  then show ?case by simp
next
  case (2 sep cur c cs)
  show ?case
  proof (cases "sep \<noteq> [] \<and> startswith (c # cs) sep")
    case True
    let ?s' = "drop (length sep) (c # cs)"
    from True have eq: "c # cs = sep @ ?s'"
      by (metis append_take_drop_id startswith_def)
    have l: "last (split_aux sep cur (c # cs)) = last (split_aux sep [] ?s')"
      using True split_aux_not_Nil by simp
    from 2(1)[OF True] have "last (split_aux sep [] ?s') = ?s' \<or>
       (\<exists>p. ?s' = p @ sep @ last (split_aux sep [] ?s'))" by simp
    then show ?thesis
    proof
      assume "last (split_aux sep [] ?s') = ?s'"
      with eq l have "c # cs = [] @ sep @ last (split_aux sep cur (c # cs))" by simp
      then show ?thesis by blast
    next
      assume "\<exists>p. ?s' = p @ sep @ last (split_aux sep [] ?s')"
      then obtain p where "?s' = p @ sep @ last (split_aux sep [] ?s')" ..
      with eq l have "c # cs = (sep @ p) @ sep @ last (split_aux sep cur (c # cs))"
        by (metis append.assoc)
      then show ?thesis by blast
    qed
  next
    case False
    then have l: "split_aux sep cur (c # cs) = split_aux sep (cur @ [c]) cs" by auto
    from 2(2)[OF False] show ?thesis unfolding l
    proof
      assume "last (split_aux sep (cur @ [c]) cs) = (cur @ [c]) @ cs"
      then show "last (split_aux sep (cur @ [c]) cs) = cur @ c # cs \<or>
          (\<exists>p. c # cs = p @ sep @ last (split_aux sep (cur @ [c]) cs))" by simp
    next
      assume "\<exists>p. cs = p @ sep @ last (split_aux sep (cur @ [c]) cs)"
      then obtain p where "cs = p @ sep @ last (split_aux sep (cur @ [c]) cs)" ..
      then have "c # cs = (c # p) @ sep @ last (split_aux sep (cur @ [c]) cs)" by simp
      then show "last (split_aux sep (cur @ [c]) cs) = cur @ c # cs \<or>
          (\<exists>p. c # cs = p @ sep @ last (split_aux sep (cur @ [c]) cs))" by blast
    qed
  qed
qed

lemma startswith_iff: "startswith s sub \<longleftrightarrow> (\<exists>q. s = sub @ q)"
proof
  assume "startswith s sub"
  then have "s = sub @ drop (length sub) s"
    by (metis append_take_drop_id startswith_def)
  then show "\<exists>q. s = sub @ q" ..
next
  assume "\<exists>q. s = sub @ q"
  then show "startswith s sub" by (auto simp: startswith_def)
qed

lemma str_contains_iff: "str_contains s sub \<longleftrightarrow> (\<exists>p q. s = p @ sub @ q)"
proof (induction s)
  case Nil
  then show ?case by auto
next
  case (Cons c cs)
  show ?case
  proof
    assume "str_contains (c # cs) sub"
    then consider "startswith (c # cs) sub" | "str_contains cs sub" by auto
    then show "\<exists>p q. c # cs = p @ sub @ q"
    proof cases
      case 1
      then obtain q where "c # cs = [] @ sub @ q" by (auto simp: startswith_iff)
      then show ?thesis by blast
    next
      case 2
      with Cons.IH obtain p q where "cs = p @ sub @ q" by blast
      then have "c # cs = (c # p) @ sub @ q" by simp
      then show ?thesis by blast
    qed
  next
    assume "\<exists>p q. c # cs = p @ sub @ q"
    then obtain p q where e: "c # cs = p @ sub @ q" by blast
    show "str_contains (c # cs) sub"
    proof (cases p)
      case Nil
      with e have "startswith (c # cs) sub" by (auto simp: startswith_iff)
      then show ?thesis by simp
    next
      case (Cons d p')
      with e have "cs = p' @ sub @ q" by simp
      with Cons.IH have "str_contains cs sub" by blast
      then show ?thesis by simp
    qed
  qed
qed

lemma str_contains_snoc_dslash:
  assumes "str_contains (cur @ [c]) ''//''"
  shows "str_contains cur ''//'' \<or> (cur \<noteq> [] \<and> last cur = CHR ''/'' \<and> c = CHR ''/'')"
proof -
  from assms obtain p q where e: "cur @ [c] = p @ ''//'' @ q" by (auto simp: str_contains_iff)
  show ?thesis
  proof (cases q rule: rev_cases)
    case Nil
    with e have "cur @ [c] = (p @ ''/'') @ ''/''" by simp
    then have "cur = p @ ''/''" and "c = CHR ''/''" by auto
    then show ?thesis by simp
  next
    case (snoc q' x)
    with e have "cur @ [c] = (p @ ''//'' @ q') @ [x]" by simp
    then have "cur = p @ ''//'' @ q'" by auto
    then show ?thesis unfolding str_contains_iff by blast
  qed
qed

lemma last_split_aux_no_sep:
  assumes "sep = ''//''" and "\<not> str_contains cur sep"
    and "\<not> (cur \<noteq> [] \<and> last cur = CHR ''/'' \<and> s \<noteq> [] \<and> hd s = CHR ''/'')"
  shows "\<not> str_contains (last (split_aux sep cur s)) sep"
  using assms
proof (induction sep cur s rule: split_aux.induct)
  case (1 sep cur)
  then show ?case by simp
next
  case (2 sep cur c cs)
  note sep = \<open>sep = ''//''\<close>
  show ?case
  proof (cases "sep \<noteq> [] \<and> startswith (c # cs) sep")
    case True
    have l: "last (split_aux sep cur (c # cs)) = last (split_aux sep [] (drop (length sep) (c # cs)))"
      using True split_aux_not_Nil by simp
    have "\<not> str_contains (last (split_aux sep [] (drop (length sep) (c # cs)))) sep"
      by (rule 2(1)[OF True sep]) (simp_all add: sep startswith_def)
    with l show ?thesis by simp
  next
    case False
    then have ns: "\<not> startswith (c # cs) ''//''" by (simp add: sep)
    from False have l: "split_aux sep cur (c # cs) = split_aux sep (cur @ [c]) cs" by auto
    have a: "\<not> str_contains (cur @ [c]) sep"
      using str_contains_snoc_dslash[of cur c] 2(4,5) unfolding sep by auto
    have b: "\<not> (cur @ [c] \<noteq> [] \<and> last (cur @ [c]) = CHR ''/'' \<and> cs \<noteq> [] \<and> hd cs = CHR ''/'')"
      using ns by (cases cs) (auto simp: startswith_def)
    from 2(2)[OF False sep a b] show ?thesis unfolding l .
  qed
qed

lemma after_first_scheme:
  assumes "\<not> str_contains (pre @ ''/'') ''//''"
  shows "after_first ''//'' (pre @ ''//'' @ rest) = rest"
  using assms
proof (induction pre)
  case Nil
  then show ?case by (simp add: startswith_def)
next
  case (Cons c p)
  from Cons.prems have ns: "\<not> startswith ((c # p) @ ''/'') ''//''"
    and rest: "\<not> str_contains (p @ ''/'') ''//''" by simp_all
  from ns have "\<not> startswith ((c # p) @ ''//'' @ rest) ''//''"
    by (cases p) (auto simp: startswith_def)
  with Cons.IH[OF rest] show ?case by simp
qed

subsection \<open>The regenerator\<close>

lemma for_filenames_eq:
  "for_filenames D names acc = acc @ map (file_entry D) (filter (\<lambda>f. endswith f ''.md'') names)"
  by (induction names arbitrary: acc) simp_all

lemma replace_aux_no_backslash:
  "backslash \<notin> set s \<Longrightarrow> replace_aux [backslash, backslash] new s = s"
  by (induction s) (auto simp: startswith_def)

lemma file_entry_no_backslash:
  assumes "backslash \<notin> set filename"
  shows "file_entry D filename = claimed_file_entry D filename"
proof -
  have "backslash \<notin> set (base_url @ ''/'' @ lists_dir @ ''/'' @ filename)"
    using assms by (auto simp: base_url_def lists_dir_def backslash_def)
  then show ?thesis
    by (simp add: file_entry_def claimed_file_entry_def replace_def replace_aux_no_backslash Let_def)
qed

lemma files_fold_print: "files (fold print xs st) = files st"
  by (induction xs arbitrary: st) (simp_all add: print_def)

section \<open>The claims\<close>

text \<open>
  Claim C1. Let \<open>S\<close> be a finite set of sitemap URLs that contains the start URL and every
  \<open>.xml\<close> location of every document served for a member of \<open>S\<close> (cyclic and duplicate
  references included). With a recursion depth above the number of members of \<open>S\<close> not
  yet processed, the call ends, and it returns unless its own request raises an exception
  that is not a \<open>RequestException\<close>; in the resulting trace no URL is fetched twice and
  every fetched URL is in the processed set; a call on an already processed URL only prints
  the skip message.
\<close>

theorem get_sitemap_urls_fetches_once:
  assumes "finite S" and "closed_under_refs E S" and "url \<in> S"
    and "card (S - processed_sitemaps st) < n" and "fetch_inv st"
  shows "\<exists>out. get_sitemap_urls n E url st = Some out \<and>
           distinct (fetched (trace (final out))) \<and>
           set (fetched (trace (final out))) \<subseteq> processed_sitemaps (final out) \<and>
           (url \<in> processed_sitemaps st \<longrightarrow> out = Returns (emit (Print_Skipping url) st)) \<and>
           (requests_get E url \<noteq> Uncaught_Exception \<longrightarrow> (\<exists>st'. out = Returns st'))"
proof -
  from get_sitemap_urls_returns[OF assms(1,2,3,4)] obtain out where
    run: "get_sitemap_urls n E url st = Some out" by blast
  from fetch_inv_preserved[OF run assms(5)] have "fetch_inv (final out)" .
  moreover have "out = Returns (emit (Print_Skipping url) st)" if "url \<in> processed_sitemaps st"
    using run that by (cases n) simp_all
  moreover have "\<exists>st'. out = Returns st'" if "requests_get E url \<noteq> Uncaught_Exception"
    using get_sitemap_urls_Raises[of n E url st] run that by (cases out) auto
  ultimately show ?thesis using run by (auto simp: fetch_inv_def)
qed

theorem get_sitemap_urls_fetches_once_witness:
  "finite example_sitemaps \<and> closed_under_refs example_env example_sitemaps \<and>
   ''i.xml'' \<in> example_sitemaps \<and>
   card (example_sitemaps - processed_sitemaps initial_state) < 8 \<and> fetch_inv initial_state \<and>
   (\<exists>out. get_sitemap_urls 8 example_env ''i.xml'' initial_state = Some out \<and>
      distinct (fetched (trace (final out))) \<and>
      set (fetched (trace (final out))) \<subseteq> processed_sitemaps (final out) \<and>
      (''i.xml'' \<in> processed_sitemaps initial_state \<longrightarrow>
         out = Returns (emit (Print_Skipping ''i.xml'') initial_state)) \<and>
      (requests_get example_env ''i.xml'' \<noteq> Uncaught_Exception \<longrightarrow> (\<exists>st'. out = Returns st')))"
proof -
  have h1: "finite example_sitemaps" by (simp add: example_sitemaps_def)
  have h2: "closed_under_refs example_env example_sitemaps" by (rule ex_closed)
  have h3: "''i.xml'' \<in> example_sitemaps" by (simp add: example_sitemaps_def)
  have h4: "card (example_sitemaps - processed_sitemaps initial_state) < 8"
    by (simp add: example_sitemaps_def initial_state_def)
  have h5: "fetch_inv initial_state" by (simp add: fetch_inv_def initial_state_def fetched_def)
  from get_sitemap_urls_fetches_once[OF h1 h2 h3 h4 h5] h1 h2 h3 h4 h5 show ?thesis by blast
qed

text \<open>
  Claim C3. Whenever a call ends, by returning or by an exception, the trace has only
  grown, the processed set is the old one plus the URLs of the \<open>Processed_Add\<close> events of
  the run (nothing is removed), every \<open>Requests_Get u\<close> of the run comes directly after
  \<open>Processed_Add u\<close>, the call's own URL is processed afterwards, and a call on a URL not
  yet processed starts with the print, the add and only then the fetch.
\<close>

theorem processed_add_precedes_fetch:
  assumes "get_sitemap_urls n E url st = Some out"
  shows "\<exists>evs. trace (final out) = trace st @ evs \<and>
           processed_sitemaps (final out) = processed_sitemaps st \<union> added_sitemaps evs \<and>
           adds_precede_gets evs \<and>
           url \<in> processed_sitemaps (final out) \<and>
           (url \<notin> processed_sitemaps st \<longrightarrow>
              (\<exists>rest. evs = [Print_Processing url, Processed_Add url, Requests_Get url] @ rest))"
proof -
  from run_summary[OF assms] obtain evs where evs: "trace (final out) = trace st @ evs"
    "processed_sitemaps (final out) = processed_sitemaps st \<union> added_sitemaps evs"
    "adds_precede_gets evs" by blast
  have in': "url \<in> processed_sitemaps (final out)" by (rule url_processed_after[OF assms])
  have first: "\<exists>rest. evs = [Print_Processing url, Processed_Add url, Requests_Get url] @ rest"
    if "url \<notin> processed_sitemaps st"
    using trace_starts_with_fetch[OF assms that] evs(1) by auto
  from evs in' first show ?thesis by blast
qed

theorem processed_add_precedes_fetch_witness:
  "get_sitemap_urls 8 example_env ''i.xml'' initial_state = Some (Returns example_final) \<and>
   (\<exists>evs. trace example_final = trace initial_state @ evs \<and>
      processed_sitemaps example_final = processed_sitemaps initial_state \<union> added_sitemaps evs \<and>
      adds_precede_gets evs \<and>
      ''i.xml'' \<in> processed_sitemaps example_final \<and>
      (''i.xml'' \<notin> processed_sitemaps initial_state \<longrightarrow>
         (\<exists>rest. evs = [Print_Processing ''i.xml'', Processed_Add ''i.xml'', Requests_Get ''i.xml''] @ rest)))"
proof -
  have f: "final (Returns example_final) = example_final" by simp
  from processed_add_precedes_fetch[OF example_run] example_run show ?thesis
    unfolding f by blast
qed






text \<open>
  Claim C9, as the code has it. For a parsed, non-empty body the loop runs over
  \<open>loc_elements\<close> of the root. These are the bare \<open>loc\<close> elements exactly when the
  namespaced search, which looks below the root, finds nothing; when an element below the
  root carries the namespaced tag, every element processed carries it and no bare element
  contributes.
\<close>

theorem namespaced_locs_searched_first:
  "(findall_descendants ns_loc_tag r = [] \<longrightarrow>
      loc_elements r = findall_descendants bare_loc_tag r) \<and>
   (findall_descendants ns_loc_tag r \<noteq> [] \<longrightarrow>
      loc_elements r = findall_descendants ns_loc_tag r \<and>
      (\<forall>e\<in>set (loc_elements r). tag e = ns_loc_tag \<and> tag e \<noteq> bare_loc_tag)) \<and>
   ((\<exists>c\<in>set (children r). \<exists>e\<in>set (iter c). tag e = ns_loc_tag) \<longleftrightarrow>
      findall_descendants ns_loc_tag r \<noteq> []) \<and>
   (bytes_strip body \<noteq> [] \<and> fromstring E (bytes_strip body) = Inr r \<longrightarrow>
      parse_and_walk E rec url body st =
        (case for_loc_elements rec (loc_elements r) st of
           None \<Rightarrow> None
         | Some (Raises st') \<Rightarrow> Some (emit (Print_Unexpected url) st')
         | Some (Returns st') \<Rightarrow> Some st'))"
proof -
  have ne: "ns_loc_tag \<noteq> bare_loc_tag" by (simp add: ns_loc_tag_def bare_loc_tag_def)
  have a: "findall_descendants ns_loc_tag r = [] \<longrightarrow>
      loc_elements r = findall_descendants bare_loc_tag r"
    by (simp add: loc_elements_def)
  have b: "findall_descendants ns_loc_tag r \<noteq> [] \<longrightarrow>
      loc_elements r = findall_descendants ns_loc_tag r \<and>
      (\<forall>e\<in>set (loc_elements r). tag e = ns_loc_tag \<and> tag e \<noteq> bare_loc_tag)"
    using ne by (auto simp: loc_elements_def Let_def dest: findall_descendants_tag)
  have c: "(\<exists>c\<in>set (children r). \<exists>e\<in>set (iter c). tag e = ns_loc_tag) \<longleftrightarrow>
      findall_descendants ns_loc_tag r \<noteq> []"
    by (auto simp: findall_descendants_def filter_empty_conv)
  have d: "bytes_strip body \<noteq> [] \<and> fromstring E (bytes_strip body) = Inr r \<longrightarrow>
      parse_and_walk E rec url body st =
        (case for_loc_elements rec (loc_elements r) st of
           None \<Rightarrow> None
         | Some (Raises st') \<Rightarrow> Some (emit (Print_Unexpected url) st')
         | Some (Returns st') \<Rightarrow> Some st')"
    by (simp add: parse_and_walk_def)
  from a b c d show ?thesis by blast
qed

theorem namespaced_locs_searched_first_witness:
  "findall_descendants ns_loc_tag example_b = [] \<and>
   loc_elements example_b = findall_descendants bare_loc_tag example_b \<and>
   findall_descendants ns_loc_tag example_index \<noteq> [] \<and>
   loc_elements example_index = findall_descendants ns_loc_tag example_index \<and>
   list_all (\<lambda>e. tag e = ns_loc_tag \<and> tag e \<noteq> bare_loc_tag) (loc_elements example_index) \<and>
   (\<exists>c\<in>set (children example_index). \<exists>e\<in>set (iter c). tag e = ns_loc_tag) \<and>
   bytes_strip ''I'' \<noteq> [] \<and> fromstring example_env (bytes_strip ''I'') = Inr example_index \<and>
   parse_and_walk example_env (get_sitemap_urls 0 example_env) ''i.xml'' ''I'' initial_state =
     (case for_loc_elements (get_sitemap_urls 0 example_env) (loc_elements example_index)
             initial_state of
        None \<Rightarrow> None
      | Some (Raises st') \<Rightarrow> Some (emit (Print_Unexpected ''i.xml'') st')
      | Some (Returns st') \<Rightarrow> Some st')"
proof -
  have b: "findall_descendants ns_loc_tag example_b = []"
    by (simp add: findall_descendants_def example_b_def ns_loc_tag_def sitemap_ns_def)
  have i: "findall_descendants ns_loc_tag example_index \<noteq> []"
    by (simp add: findall_descendants_def example_index_def ns_loc_def ns_tag_def)
  have s: "bytes_strip ''I'' \<noteq> []" "fromstring example_env (bytes_strip ''I'') = Inr example_index"
    by (simp_all add: example_env_def bytes_strip_def strip_with_def bytes_isspace_def)
  from namespaced_locs_searched_first[of example_b "''I''" example_env "get_sitemap_urls 0 example_env" "''i.xml''" initial_state]
       namespaced_locs_searched_first[of example_index "''I''" example_env "get_sitemap_urls 0 example_env" "''i.xml''" initial_state]
       b i s
  show ?thesis unfolding list_all_iff by blast
qed

text \<open>
  Claim C9 as stated fails for a document that contains a namespaced \<open>loc\<close> element only
  as its root: the namespaced search looks below the root and finds nothing, so the bare
  search runs and its element is processed; the run adds \<open>x\<close> to the leaf URLs.
\<close>

theorem namespaced_locs_searched_first_counterexample:
  "tag root_is_loc = ns_loc_tag \<and>
   list_ex (\<lambda>e. tag e = ns_loc_tag) (iter root_is_loc) \<and>
   findall_descendants ns_loc_tag root_is_loc = [] \<and>
   loc_elements root_is_loc = [Element bare_loc_tag (Some ''x'') []] \<and>
   loc_elements root_is_loc = findall_descendants bare_loc_tag root_is_loc \<and>
   get_sitemap_urls 8 root_is_loc_env ''s.xml'' initial_state =
     Some (Returns \<lparr>all_urls = {''x''}, processed_sitemaps = {''s.xml''},
       trace = [Print_Processing ''s.xml'', Processed_Add ''s.xml'', Requests_Get ''s.xml'',
                All_Urls_Add ''x'']\<rparr>)"
  by (simp add: eval_nat_numeral root_is_loc_def root_is_loc_env_def ex_defs)

text \<open>
  Claim C10. When a call fetches and parses a document one of whose location elements has a
  non-empty text made of whitespace only, and no request for a sub-sitemap of the document
  raises an exception that is not a \<open>RequestException\<close> (which would end the loop early),
  the empty string is in the leaf accumulator when the call ends. A location element
  without a text node is skipped by the loop.
\<close>

theorem whitespace_only_loc_adds_empty_string:
  assumes "get_sitemap_urls n E url st = Some out" and "url \<notin> processed_sitemaps st"
    and "requests_get E url = Response body" and "bytes_strip body \<noteq> []"
    and "fromstring E (bytes_strip body) = Inr r"
    and "e \<in> set (loc_elements r)" and "text_of e = Some t" and "t \<noteq> []"
    and "\<forall>c\<in>set t. isspace c"
    and "\<forall>c\<in>set (sub_sitemaps E url). requests_get E c \<noteq> Uncaught_Exception"
  shows "(\<exists>st'. out = Returns st' \<and> [] \<in> all_urls st') \<and>
         (\<forall>rec tg cs rest s.
            for_loc_elements rec (Element tg None cs # rest) s = for_loc_elements rec rest s)"
proof -
  from document_visited[OF assms(1,2,3,4,5,10)] obtain s' where
    out: "out = Returns s'"
    and al: "\<forall>u\<in>set (loc_urls (loc_elements r)).
               if endswith u ''.xml'' then u \<in> processed_sitemaps s' else u \<in> all_urls s'"
    by (elim exE conjE)
  have "strip t \<in> set (loc_urls (loc_elements r))" by (rule loc_urls_text[OF assms(6,7,8)])
  then have "[] \<in> set (loc_urls (loc_elements r))"
    unfolding strip_all_space[OF assms(9)] .
  moreover have "\<not> endswith [] ''.xml''" by (simp add: endswith_def)
  ultimately have "[] \<in> all_urls s'" using al by auto
  with out show ?thesis by simp
qed

theorem whitespace_only_loc_adds_empty_string_witness:
  "get_sitemap_urls (Suc 0) example_env ''b.xml'' initial_state = Some (Returns example_b_final) \<and>
   ''b.xml'' \<notin> processed_sitemaps initial_state \<and>
   requests_get example_env ''b.xml'' = Response '' B '' \<and>
   bytes_strip '' B '' \<noteq> [] \<and>
   fromstring example_env (bytes_strip '' B '') = Inr example_b \<and>
   Element ''loc'' (Some ''  '') [] \<in> set (loc_elements example_b) \<and>
   text_of (Element ''loc'' (Some ''  '') []) = Some ''  '' \<and>
   ''  '' \<noteq> [] \<and> list_all isspace ''  '' \<and>
   sub_sitemaps example_env ''b.xml'' = [] \<and>
   (\<exists>st'. Returns example_b_final = Returns st' \<and> [] \<in> all_urls st') \<and>
   [] \<in> all_urls example_b_final \<and>
   (\<forall>rec tg cs rest s.
      for_loc_elements rec (Element tg None cs # rest) s = for_loc_elements rec rest s)"
proof -
  have run: "get_sitemap_urls (Suc 0) example_env ''b.xml'' initial_state = Some (Returns example_b_final)"
    by (simp add: ex_defs example_b_final_def)
  have h2: "''b.xml'' \<notin> processed_sitemaps initial_state" by (simp add: initial_state_def)
  have h3: "requests_get example_env ''b.xml'' = Response '' B ''" by (simp add: example_env_def)
  have h4: "bytes_strip '' B '' \<noteq> []" by (simp add: bytes_strip_def strip_with_def bytes_isspace_def)
  have h5: "fromstring example_env (bytes_strip '' B '') = Inr example_b"
    by (simp add: example_env_def bytes_strip_def strip_with_def bytes_isspace_def)
  have h6: "Element ''loc'' (Some ''  '') [] \<in> set (loc_elements example_b)"
    by (simp add: example_b_locs)
  have h7: "text_of (Element ''loc'' (Some ''  '') []) = Some ''  ''" by simp
  have h8: "''  '' \<noteq> []" by simp
  have h9: "\<forall>c\<in>set ''  ''. isspace c" by (simp add: isspace_def)
  have h9': "list_all isspace ''  ''" by (simp add: isspace_def)
  have sub: "sub_sitemaps example_env ''b.xml'' = []"
    by (simp add: sub_sitemaps_def h3 h4 h5 example_b_locs strip_def strip_with_def isspace_def
        endswith_def)
  have h10: "\<forall>c\<in>set (sub_sitemaps example_env ''b.xml''). requests_get example_env c \<noteq> Uncaught_Exception"
    unfolding sub by simp
  note T = whitespace_only_loc_adds_empty_string[OF run h2 h3 h4 h5 h6 h7 h8 h9 h10]
  from conjunct1[OF T] have c1: "\<exists>st'. Returns example_b_final = Returns st' \<and> [] \<in> all_urls st'" .
  then obtain st' where "Returns example_b_final = Returns st'" and m: "[] \<in> all_urls st'"
    by (elim exE conjE)
  then have "st' = example_b_final" by simp
  with m have c2: "[] \<in> all_urls example_b_final" by (rule subst[where P = "\<lambda>x. [] \<in> all_urls x", rotated])
  from conjunct2[OF T] have c3: "\<forall>rec tg cs rest s.
      for_loc_elements rec (Element tg None cs # rest) s = for_loc_elements rec rest s" .
  from run h2 h3 h4 h5 h6 h7 h8 h9' sub c1 c2 c3 show ?thesis by (intro conjI)
qed

text \<open>
  Claim C2. For a finite URL set and a positive batch size, the number of batches is the
  ceiling of the number of URLs over the batch size; batch \<open>i + 1\<close> (numbers run from 1
  without gaps) holds the slice of the sorted sequence from index \<open>i * B\<close> to
  \<open>(i + 1) * B\<close>, is not empty, has at most \<open>B\<close> URLs and exactly \<open>B\<close> unless it is the
  last; the batches put end to end are the sorted sequence, which has every URL of the set
  once.
\<close>

theorem batching_partitions_sorted_urls:
  assumes "finite urls" and "0 < bsize"
  shows "int (length (main_batches bsize urls)) = \<lceil>real (card urls) / real bsize\<rceil> \<and>
    (\<forall>i<length (main_batches bsize urls).
       batch_file_number (main_batches bsize urls ! i) = i + 1 \<and>
       current_batch_urls (main_batches bsize urls ! i) =
         py_slice (sorted_list_of_set urls) (i * bsize) ((i + 1) * bsize) \<and>
       0 < length (current_batch_urls (main_batches bsize urls ! i)) \<and>
       length (current_batch_urls (main_batches bsize urls ! i)) \<le> bsize \<and>
       (i + 1 < length (main_batches bsize urls) \<longrightarrow>
          length (current_batch_urls (main_batches bsize urls ! i)) = bsize)) \<and>
    concat (map current_batch_urls (main_batches bsize urls)) = sorted_list_of_set urls \<and>
    sorted (sorted_list_of_set urls) \<and>
    set (concat (map current_batch_urls (main_batches bsize urls))) = urls \<and>
    distinct (concat (map current_batch_urls (main_batches bsize urls)))"
proof -
  let ?xs = "sorted_list_of_set urls"
  have mb: "main_batches bsize urls = write_batches bsize ?xs"
    by (rule main_batches_eq[OF assms(2)])
  have len: "length ?xs = card urls" by simp
  have n: "length (write_batches bsize ?xs) = (length ?xs + bsize - 1) div bsize"
    by (rule length_write_batches)
  have a: "int (length (write_batches bsize ?xs)) = \<lceil>real (card urls) / real bsize\<rceil>"
    unfolding n len by (rule num_batches_ceiling[OF assms(2)])
  have b: "batch_file_number (write_batches bsize ?xs ! i) = i + 1 \<and>
       current_batch_urls (write_batches bsize ?xs ! i) = py_slice ?xs (i * bsize) ((i + 1) * bsize) \<and>
       0 < length (current_batch_urls (write_batches bsize ?xs ! i)) \<and>
       length (current_batch_urls (write_batches bsize ?xs ! i)) \<le> bsize \<and>
       (i + 1 < length (write_batches bsize ?xs) \<longrightarrow>
          length (current_batch_urls (write_batches bsize ?xs ! i)) = bsize)"
    if i: "i < length (write_batches bsize ?xs)" for i
  proof -
    from i have i': "i < (length ?xs + bsize - 1) div bsize" unfolding n .
    have e: "(i + 1) * bsize = i * bsize + bsize" by simp
    show ?thesis
      unfolding nth_write_batches[OF i] n e
      using slice_lengths[OF assms(2) i'] by simp
  qed
  have c: "concat (map current_batch_urls (write_batches bsize ?xs)) = ?xs"
    by (rule concat_write_batches[OF assms(2)])
  have d: "sorted ?xs" "set ?xs = urls" "distinct ?xs" using assms(1) by simp_all
  show ?thesis unfolding mb c using a b d by blast
qed

theorem batching_partitions_sorted_urls_witness:
  "finite {''b'', ''a'', ''c''} \<and> (0::nat) < 2 \<and>
   int (length (main_batches 2 {''b'', ''a'', ''c''})) = \<lceil>real (card {''b'', ''a'', ''c''}) / real (2::nat)\<rceil> \<and>
   concat (map current_batch_urls (main_batches 2 {''b'', ''a'', ''c''})) = sorted_list_of_set {''b'', ''a'', ''c''} \<and>
   map batch_file_number (main_batches 2 {''b'', ''a'', ''c''}) = [1, 2] \<and>
   map current_batch_urls (main_batches 2 {''b'', ''a'', ''c''}) = [[''a'', ''b''], [''c'']]"
proof -
  have h1: "finite {''b'', ''a'', ''c''}" by simp
  have h2: "(0::nat) < 2" by simp
  have e1: "map batch_file_number (main_batches 2 {''b'', ''a'', ''c''}) = [1, 2]" by code_simp
  have e2: "map current_batch_urls (main_batches 2 {''b'', ''a'', ''c''}) = [[''a'', ''b''], [''c'']]"
    by code_simp
  from batching_partitions_sorted_urls[OF h1 h2] h1 h2 e1 e2 show ?thesis by blast
qed

text \<open>
  Claim C8, as the code has it. The display label is what follows the last \<open>//\<close> at which
  the scan from the left cuts the URL: it is the whole URL or is preceded in it by \<open>//\<close>, and
  it contains no \<open>//\<close>. A URL without \<open>//\<close> is its own label. When the URL is a scheme,
  \<open>//\<close> and a rest without \<open>//\<close> (and the scheme followed by a slash has no \<open>//\<close>), the
  label is that rest, which is what the claim describes. The link target is the URL unchanged.
\<close>

theorem link_text_follows_last_separator:
  "(link_text url = url \<or> (\<exists>p. url = p @ ''//'' @ link_text url)) \<and>
   \<not> str_contains (link_text url) ''//'' \<and>
   (\<not> str_contains url ''//'' \<longrightarrow> link_text url = url) \<and>
   (\<forall>pre rest. url = pre @ ''//'' @ rest \<and> \<not> str_contains (pre @ ''/'') ''//'' \<and>
        \<not> str_contains rest ''//'' \<longrightarrow>
        link_text url = rest \<and> claimed_label url = rest) \<and>
   link_line url = ''- ['' @ link_text url @ '']('' @ url @ '')'' @ [CHR 0x0A]"
proof -
  have a: "link_text url = url \<or> (\<exists>p. url = p @ ''//'' @ link_text url)"
    using last_split_aux_suffix[of "''//''" "[]" url] by (simp add: link_text_def split_def)
  have b: "\<not> str_contains (link_text url) ''//''"
    unfolding link_text_def split_def by (rule last_split_aux_no_sep) simp_all
  have c: "link_text url = url" if "\<not> str_contains url ''//''"
    using split_aux_no_sep[OF _ that, of "[]"] by (simp add: link_text_def split_def)
  have d: "link_text url = rest \<and> claimed_label url = rest"
    if "url = pre @ ''//'' @ rest" "\<not> str_contains (pre @ ''/'') ''//''"
       "\<not> str_contains rest ''//''" for pre rest
  proof -
    have "link_text url = rest"
      unfolding link_text_def split_def that(1) by (rule last_split_aux_scheme[OF that(2,3)])
    moreover have "str_contains url ''//''" unfolding str_contains_iff using that(1) by blast
    then have "claimed_label url = rest"
      unfolding claimed_label_def using after_first_scheme[OF that(2), of rest] that(1) by simp
    ultimately show ?thesis ..
  qed
  have e: "link_line url = ''- ['' @ link_text url @ '']('' @ url @ '')'' @ [CHR 0x0A]"
    by (simp add: link_line_def)
  from a b c d e show ?thesis by blast
qed

theorem link_text_follows_last_separator_witness:
  "\<not> str_contains (''https:'' @ ''/'') ''//'' \<and> \<not> str_contains ''a.com/x'' ''//'' \<and>
   link_text ''https://a.com/x'' = ''a.com/x'' \<and>
   claimed_label ''https://a.com/x'' = ''a.com/x'' \<and>
   \<not> str_contains ''a/b'' ''//'' \<and> link_text ''a/b'' = ''a/b''"
proof -
  have h1: "\<not> str_contains (''https:'' @ ''/'') ''//''" by (simp add: startswith_def)
  have h2: "\<not> str_contains ''a.com/x'' ''//''" by (simp add: startswith_def)
  have h3: "\<not> str_contains ''a/b'' ''//''" by (simp add: startswith_def)
  have e: "''https://a.com/x'' = ''https:'' @ ''//'' @ ''a.com/x''" by simp
  from link_text_follows_last_separator[of "''https://a.com/x''"] h1 h2 e
  have "link_text ''https://a.com/x'' = ''a.com/x'' \<and> claimed_label ''https://a.com/x'' = ''a.com/x''"
    by blast
  moreover from link_text_follows_last_separator[of "''a/b''"] h3
  have "link_text ''a/b'' = ''a/b''" by blast
  ultimately show ?thesis using h1 h2 h3 by blast
qed

text \<open>
  Claim C8 as stated fails for a URL with a second \<open>//\<close>: the label of
  \<open>https://a//b\<close> is \<open>b\<close>, not \<open>a//b\<close>.
\<close>

theorem link_text_counterexample:
  "link_text ''https://a//b'' = ''b'' \<and> claimed_label ''https://a//b'' = ''a//b'' \<and>
   link_text ''https://a//b'' \<noteq> claimed_label ''https://a//b''"
  by (simp add: link_text_def split_def claimed_label_def startswith_def)

text \<open>
  Claim C6, as the code has it. Whenever the lists directory is absent or its listing
  succeeds, and no listed name ending in \<open>.md\<close> contains a backslash, the function
  returns the root entry (today's date, weekly, 1.0) followed, in the order of the listing,
  by one entry for each name ending in \<open>.md\<close>: location base URL, subdirectory and name
  joined by slashes, the file's modification date or today's date, monthly, 0.8. For a
  listing of exactly \<open>list-001.md\<close> and \<open>list-002.md\<close> these are three entries.
\<close>

theorem generate_sitemap_entries_root_then_md_files:
  assumes "lists_is_dir D \<Longrightarrow> listdir D = Inr names"
    and "\<forall>f\<in>set names. endswith f ''.md'' \<longrightarrow> backslash \<notin> set f"
  shows "returned_entries (generate_sitemap_entries D) =
      Some (url_entry (base_url @ ''/'') (today D) ''weekly'' ''1.0'' #
            map (\<lambda>f. url_entry (base_url @ ''/'' @ lists_dir @ ''/'' @ f)
                        (case mtime_date D (os_path_join lists_dir f) of
                           Some d \<Rightarrow> d | None \<Rightarrow> today D)
                        ''monthly'' ''0.8'')
                (filter (\<lambda>f. endswith f ''.md'') (if lists_is_dir D then names else []))) \<and>
    (lists_is_dir D \<and> (names = [''list-001.md'', ''list-002.md''] \<or>
                         names = [''list-002.md'', ''list-001.md'']) \<longrightarrow>
       (\<exists>entries. returned_entries (generate_sitemap_entries D) = Some entries \<and>
          length entries = 3))"
proof -
  let ?md = "filter (\<lambda>f. endswith f ''.md'') names"
  have fe: "map (file_entry D) ?md = map (claimed_file_entry D) ?md"
    using assms(2) by (intro map_cong refl file_entry_no_backslash) simp
  have r: "returned_entries (generate_sitemap_entries D) =
      Some (root_entry D # map (claimed_file_entry D)
             (filter (\<lambda>f. endswith f ''.md'') (if lists_is_dir D then names else [])))"
  proof (cases "lists_is_dir D")
    case True
    with assms(1) have "listdir D = Inr names" by simp
    with True fe show ?thesis
      by (simp add: generate_sitemap_entries_def returned_entries_def for_filenames_eq)
  next
    case False
    then show ?thesis by (simp add: generate_sitemap_entries_def returned_entries_def)
  qed
  have cf: "claimed_file_entry D = (\<lambda>f. url_entry (base_url @ ''/'' @ lists_dir @ ''/'' @ f)
                        (case mtime_date D (os_path_join lists_dir f) of
                           Some d \<Rightarrow> d | None \<Rightarrow> today D)
                        ''monthly'' ''0.8'')"
    by (rule ext) (simp add: claimed_file_entry_def)
  have a: "returned_entries (generate_sitemap_entries D) =
      Some (url_entry (base_url @ ''/'') (today D) ''weekly'' ''1.0'' #
            map (\<lambda>f. url_entry (base_url @ ''/'' @ lists_dir @ ''/'' @ f)
                        (case mtime_date D (os_path_join lists_dir f) of
                           Some d \<Rightarrow> d | None \<Rightarrow> today D)
                        ''monthly'' ''0.8'')
                (filter (\<lambda>f. endswith f ''.md'') (if lists_is_dir D then names else [])))"
    unfolding r cf root_entry_def ..
  have b: "\<exists>entries. returned_entries (generate_sitemap_entries D) = Some entries \<and>
          length entries = 3"
    if "lists_is_dir D" and "names = [''list-001.md'', ''list-002.md''] \<or>
                         names = [''list-002.md'', ''list-001.md'']"
    unfolding r using that by (auto simp: endswith_def)
  from a b show ?thesis by blast
qed

theorem generate_sitemap_entries_root_then_md_files_witness:
  "listdir example_dir = Inr [''list-002.md'', ''list-001.md''] \<and>
   list_all (\<lambda>f. backslash \<notin> set f) [''list-002.md'', ''list-001.md''] \<and>
   returned_entries (generate_sitemap_entries example_dir) =
     Some [url_entry (base_url @ ''/'') ''2026-11-04'' ''weekly'' ''1.0'',
           url_entry (base_url @ ''/lists/list-002.md'') ''2026-11-04'' ''monthly'' ''0.8'',
           url_entry (base_url @ ''/lists/list-001.md'') ''2026-10-01'' ''monthly'' ''0.8'']"
proof -
  have h1: "lists_is_dir example_dir \<Longrightarrow> listdir example_dir = Inr [''list-002.md'', ''list-001.md'']"
    by (simp add: example_dir_def)
  have h2: "\<forall>f\<in>set [''list-002.md'', ''list-001.md'']. endswith f ''.md'' \<longrightarrow> backslash \<notin> set f"
    by (simp add: backslash_def)
  have h3: "list_all (\<lambda>f. backslash \<notin> set f) [''list-002.md'', ''list-001.md'']"
    by (simp add: backslash_def)
  have l: "listdir example_dir = Inr [''list-002.md'', ''list-001.md'']" by (simp add: example_dir_def)
  from generate_sitemap_entries_root_then_md_files[OF h1 h2]
  have "returned_entries (generate_sitemap_entries example_dir) =
     Some [url_entry (base_url @ ''/'') ''2026-11-04'' ''weekly'' ''1.0'',
           url_entry (base_url @ ''/lists/list-002.md'') ''2026-11-04'' ''monthly'' ''0.8'',
           url_entry (base_url @ ''/lists/list-001.md'') ''2026-10-01'' ''monthly'' ''0.8'']"
    by (simp add: example_dir_def endswith_def os_path_join_def lists_dir_def startswith_def)
  with l h3 show ?thesis by blast
qed

text \<open>
  Claim C6 as stated fails: a file named \<open>a\\b.md\<close> (two backslashes) gets the location
  \<open>.../lists/a/b.md\<close>, not the base URL joined with the subdirectory and the name; and when
  the directory exists but listing it raises, the function raises and returns no list.
\<close>

theorem generate_sitemap_entries_counterexample:
  "listdir double_backslash_dir =
     Inr [[CHR ''a'', backslash, backslash, CHR ''b'', CHR ''.'', CHR ''m'', CHR ''d'']] \<and>
   returned_entries (generate_sitemap_entries double_backslash_dir) =
     Some [url_entry (base_url @ ''/'') ''2026-11-04'' ''weekly'' ''1.0'',
           url_entry (base_url @ ''/lists/a/b.md'') ''2026-11-04'' ''monthly'' ''0.8''] \<and>
   returned_entries (generate_sitemap_entries double_backslash_dir) \<noteq>
     Some (claimed_entries double_backslash_dir
            [[CHR ''a'', backslash, backslash, CHR ''b'', CHR ''.'', CHR ''m'', CHR ''d'']]) \<and>
   generate_sitemap_entries unreadable_dir = Inl (IOError ''Permission denied'')"
  by (simp add: generate_sitemap_entries_def returned_entries_def double_backslash_dir_def
      unreadable_dir_def claimed_entries_def claimed_file_entry_def file_entry_def root_entry_def
      replace_def startswith_def endswith_def os_path_join_def lists_dir_def base_url_def
      url_entry_def backslash_def Let_def)

text \<open>
  Claim C7, as the code has it. \<open>write_sitemap\<close> writes in place to the fixed path
  \<open>sitemap.xml\<close> and touches no other file. Without a fault the file holds the document.
  When every exception raised by the open, the write or the read-back is an \<open>IOError\<close>,
  none leaves the function: a failed open leaves the file as it was, a failed write leaves
  the part written so far, and in each case the diagnostic line is printed.
\<close>

theorem write_sitemap_reports_io_errors:
  assumes "only_io_errors IO"
  shows "snd (write_sitemap IO entries st) = None \<and>
    (\<forall>p. p \<noteq> ''sitemap.xml'' \<longrightarrow> files (fst (write_sitemap IO entries st)) p = files st p) \<and>
    (open_w_raises IO = None \<and> write_raises IO = None \<longrightarrow>
       files (fst (write_sitemap IO entries st)) ''sitemap.xml'' = Some (sitemap_content entries)) \<and>
    (\<forall>m. open_w_raises IO = Some (IOError m) \<longrightarrow>
       files (fst (write_sitemap IO entries st)) = files st \<and>
       printed (fst (write_sitemap IO entries st)) =
         printed st @ [''Error writing sitemap.xml: '' @ m]) \<and>
    (\<forall>k m. open_w_raises IO = None \<and> write_raises IO = Some (k, IOError m) \<longrightarrow>
       files (fst (write_sitemap IO entries st)) ''sitemap.xml'' =
         Some (take k (sitemap_content entries)) \<and>
       printed (fst (write_sitemap IO entries st)) =
         printed st @ [''Error writing sitemap.xml: '' @ m]) \<and>
    (\<forall>m. open_w_raises IO = None \<and> write_raises IO = None \<and>
         open_r_raises IO = Some (IOError m) \<longrightarrow>
       printed (fst (write_sitemap IO entries st)) =
         printed st @ [''sitemap.xml has been successfully updated.'',
                       ''Error writing sitemap.xml: '' @ m])"
proof (cases "open_w_raises IO")
  case (Some e)
  with assms obtain m where "e = IOError m"
    by (cases e) (auto simp: only_io_errors_def is_io_error_def)
  with Some show ?thesis
    by (simp add: write_sitemap_def write_body_def print_def)
next
  case ow: None
  show ?thesis
  proof (cases "write_raises IO")
    case (Some ke)
    obtain k e where ke: "ke = (k, e)" by (cases ke)
    with assms Some obtain m where "e = IOError m"
      by (cases e) (auto simp: only_io_errors_def is_io_error_def)
    with ow Some ke show ?thesis
      by (simp add: write_sitemap_def write_body_def print_def Let_def)
  next
    case wr: None
    show ?thesis
    proof (cases "open_r_raises IO")
      case (Some e)
      with assms obtain m where "e = IOError m"
        by (cases e) (auto simp: only_io_errors_def is_io_error_def)
      with ow wr Some show ?thesis
        by (simp add: write_sitemap_def write_body_def print_def Let_def)
    next
      case None
      with ow wr show ?thesis
        by (simp add: write_sitemap_def write_body_def print_def Let_def files_fold_print)
    qed
  qed
qed

theorem write_sitemap_reports_io_errors_witness:
  "only_io_errors disk_full \<and>
   snd (write_sitemap disk_full [''e1'', ''e2''] old_disk) = None \<and>
   files (fst (write_sitemap disk_full [''e1'', ''e2''] old_disk)) ''README.md'' = Some ''readme'' \<and>
   files (fst (write_sitemap disk_full [''e1'', ''e2''] old_disk)) ''sitemap.xml'' = Some ''<?xml'' \<and>
   printed (fst (write_sitemap disk_full [''e1'', ''e2''] old_disk)) =
     [''Error writing sitemap.xml: No space left on device''] \<and>
   only_io_errors no_fault \<and>
   files (fst (write_sitemap no_fault [''e1'', ''e2''] old_disk)) ''sitemap.xml'' =
     Some (sitemap_content [''e1'', ''e2''])"
proof -
  let ?r = "write_sitemap disk_full [''e1'', ''e2''] old_disk"
  have h: "only_io_errors disk_full"
    by (simp add: only_io_errors_def disk_full_def is_io_error_def)
  have h': "only_io_errors no_fault"
    by (simp add: only_io_errors_def no_fault_def)
  have d: "open_w_raises disk_full = None \<and>
    write_raises disk_full = Some (5, IOError ''No space left on device'')"
    by (simp add: disk_full_def)
  have n: "open_w_raises no_fault = None \<and> write_raises no_fault = None"
    by (simp add: no_fault_def)
  have o: "files old_disk ''README.md'' = Some ''readme''" and o': "printed old_disk = []"
    by (simp_all add: old_disk_def)
  have t: "take 5 (sitemap_content [''e1'', ''e2'']) = ''<?xml''"
    by (simp add: sitemap_content_def)
  have r: "''README.md'' \<noteq> ''sitemap.xml''" by simp
  note T = write_sitemap_reports_io_errors[OF h, of "[''e1'', ''e2'']" old_disk]
  from T have c1: "snd ?r = None" by (rule conjunct1)
  from T have "\<forall>p. p \<noteq> ''sitemap.xml'' \<longrightarrow> files (fst ?r) p = files old_disk p"
    by (elim conjE)
  with r o have c2: "files (fst ?r) ''README.md'' = Some ''readme''" by simp
  from T have "\<forall>k m. open_w_raises disk_full = None \<and> write_raises disk_full = Some (k, IOError m) \<longrightarrow>
       files (fst ?r) ''sitemap.xml'' = Some (take k (sitemap_content [''e1'', ''e2''])) \<and>
       printed (fst ?r) = printed old_disk @ [''Error writing sitemap.xml: '' @ m]"
    by (elim conjE)
  from this[rule_format, OF d]
  have c3: "files (fst ?r) ''sitemap.xml'' = Some ''<?xml''"
    and c4: "printed (fst ?r) = [''Error writing sitemap.xml: No space left on device'']"
    unfolding t o' by simp_all
  from write_sitemap_reports_io_errors[OF h', of "[''e1'', ''e2'']" old_disk]
  have "open_w_raises no_fault = None \<and> write_raises no_fault = None \<longrightarrow>
       files (fst (write_sitemap no_fault [''e1'', ''e2''] old_disk)) ''sitemap.xml'' =
         Some (sitemap_content [''e1'', ''e2''])"
    by (elim conjE)
  from this[rule_format, OF n]
  have c5: "files (fst (write_sitemap no_fault [''e1'', ''e2''] old_disk)) ''sitemap.xml'' =
     Some (sitemap_content [''e1'', ''e2''])" .
  from h c1 c2 c3 c4 h' c5 show ?thesis by (intro conjI)
qed

text \<open>
  Claim C7 as stated fails: the write is not atomic. When the disk fills up after five
  characters, the previous content \<open>old\<close> of \<open>sitemap.xml\<close> is gone and the file holds the
  first five characters of the new document.
\<close>

theorem write_sitemap_counterexample:
  "files old_disk ''sitemap.xml'' = Some ''old'' \<and>
   files (fst (write_sitemap disk_full [''e1'', ''e2''] old_disk)) ''sitemap.xml'' = Some ''<?xml'' \<and>
   files (fst (write_sitemap disk_full [''e1'', ''e2''] old_disk)) ''sitemap.xml'' \<noteq>
     files old_disk ''sitemap.xml'' \<and>
   files (fst (write_sitemap disk_full [''e1'', ''e2''] old_disk)) ''sitemap.xml'' \<noteq>
     Some (sitemap_content [''e1'', ''e2''])"
  by (simp add: write_sitemap_def write_body_def disk_full_def old_disk_def print_def
      sitemap_content_def Let_def)

end
